theory Spec2Isabelle
  imports Main "HOL-Library.Sublist" "HOL-Library.Multiset"
begin

chapter \<open>A shallow embedding of the okwolo/goo view and state core\<close>

text \<open>
  The development follows the JavaScript sources: \<^verbatim>\<open>src/utils.js\<close> (helpers),
  \<^verbatim>\<open>dist/lite.js\<close> (the bundled lite kit: build, the dom update and the state module)
  and \<^verbatim>\<open>test/modules/state.handler.history.js\<close> (the tests of the history module).
  Part I holds the definitions (with the size lemmas that their termination proofs use),
  Part II the lemmas and theorems.
\<close>

section \<open>Part I: definitions\<close>

subsection \<open>Arrays of keys and \<^verbatim>\<open>longestChain\<close>\<close>

text \<open>
  A JavaScript array read \<^verbatim>\<open>xs[k]\<close> yields \<^verbatim>\<open>undefined\<close> outside the array;
  \<open>None\<close> stands for \<^verbatim>\<open>undefined\<close>. Keys are strings in the program; the functions
  below only compare them, so they are stated for any type of keys.
\<close>

definition js_nth :: "'a list \<Rightarrow> int \<Rightarrow> 'a option" where
  "js_nth xs k = (if 0 \<le> k \<and> k < int (length xs) then Some (xs ! nat k) else None)"

text \<open>\<^verbatim>\<open>Array.prototype.indexOf\<close>: the first position of an element, or \<open>-1\<close>.\<close>

fun indexOf_from :: "int \<Rightarrow> 'a list \<Rightarrow> 'a \<Rightarrow> int" where
  "indexOf_from k [] x = -1"
| "indexOf_from k (y # ys) x = (if y = x then k else indexOf_from (k + 1) ys x)"

definition indexOf :: "'a list \<Rightarrow> 'a \<Rightarrow> int" where
  "indexOf xs x = indexOf_from 0 xs x"

text \<open>
  \<^verbatim>\<open>Array.prototype.slice(b, e)\<close> for integer arguments (a negative index counts from
  the end), and \<^verbatim>\<open>slice(b, Infinity)\<close>.
\<close>

definition js_slice :: "'a list \<Rightarrow> int \<Rightarrow> int \<Rightarrow> 'a list" where
  "js_slice xs b e =
     (let n = int (length xs);
          k = (if b < 0 then max (n + b) 0 else min b n);
          final = (if e < 0 then max (n + e) 0 else min e n)
      in take (nat (final - k)) (drop (nat k) xs))"

definition js_slice_from :: "'a list \<Rightarrow> int \<Rightarrow> 'a list" where
  "js_slice_from xs b =
     (let n = int (length xs);
          k = (if b < 0 then max (n + b) 0 else min b n)
      in drop (nat k) xs)"

text \<open>
  The inner loop of \<^verbatim>\<open>longestChain\<close> (utils.js 254-263, lite.js 739-747):
  \<^verbatim>\<open>for (let inc = 1; inc < maxInc; ++inc) {
      if (successor[i + inc] !== original[startInc + inc]) break;
      currentLength += 1; }\<close>
  It returns the final \<^verbatim>\<open>currentLength\<close>.
\<close>

function chain_scan :: "'a list \<Rightarrow> 'a list \<Rightarrow> nat \<Rightarrow> int \<Rightarrow> int \<Rightarrow> int \<Rightarrow> nat \<Rightarrow> nat" where
  "chain_scan original successor i startInc maxInc inc currentLength =
     (if inc < maxInc then
        (if js_nth successor (int i + inc) \<noteq> js_nth original (startInc + inc) then currentLength
         else chain_scan original successor i startInc maxInc (inc + 1) (currentLength + 1))
      else currentLength)"
  by pat_completeness auto
termination
  by (relation "measure (\<lambda>(original, successor, i, startInc, maxInc, inc, currentLength). nat (maxInc - inc))") auto

declare chain_scan.simps [simp del]

text \<open>
  The body of the outer loop up to the inner loop's exit: \<^verbatim>\<open>startInc\<close>,
  \<^verbatim>\<open>maxInc = Math.min(count - startInc, count - i)\<close> and the \<^verbatim>\<open>currentLength\<close>
  reached from position \<open>i\<close> of \<^verbatim>\<open>successor\<close>.
\<close>

definition chain_at :: "'a list \<Rightarrow> 'a list \<Rightarrow> nat \<Rightarrow> nat" where
  "chain_at original successor i =
     (let count = int (length successor);
          startInc = indexOf original (successor ! i);
          maxInc = min (count - startInc) (count - int i)
      in chain_scan original successor i startInc maxInc 1 1)"

text \<open>
  The outer loop (utils.js 248-276). \<^verbatim>\<open>half = count / 2\<close> is a fraction in JavaScript,
  so the exit test \<^verbatim>\<open>longest >= half\<close> is \<open>count \<le> 2 * longest\<close>.
\<close>

function chain_loop :: "'a list \<Rightarrow> 'a list \<Rightarrow> nat \<Rightarrow> nat \<Rightarrow> nat \<Rightarrow> nat \<times> nat" where
  "chain_loop original successor i longest chainStart =
     (if i < length successor then
        (let currentLength = chain_at original successor i;
             longest' = (if currentLength > longest then currentLength else longest);
             chainStart' = (if currentLength > longest then i else chainStart)
         in if length successor \<le> 2 * longest' then (longest', chainStart')
            else chain_loop original successor (i + 1) longest' chainStart')
      else (longest, chainStart))"
  by pat_completeness auto
termination
  by (relation "measure (\<lambda>(original, successor, i, longest, chainStart). length successor - i)") auto

declare chain_loop.simps [simp del]

text \<open>
  \<^verbatim>\<open>longestChain(original, successor)\<close> returns
  \<^verbatim>\<open>{start: chainStart, end: chainStart + longest - 1}\<close>, here the pair \<open>(start, end)\<close>.
  The two copies of the function (utils.js 240-281, lite.js 727-763) are the same code.
\<close>

definition longestChain :: "'a list \<Rightarrow> 'a list \<Rightarrow> int \<times> int" where
  "longestChain original successor =
     (case chain_loop original successor 0 0 0 of
        (longest, chainStart) \<Rightarrow> (int chainStart, int chainStart + int longest - 1))"

text \<open>
  The reordering at the end of \<^verbatim>\<open>_update\<close> (lite.js 926-947), on the list of keys of
  the parent's host children. A host node sits at one position only, so
  \<^verbatim>\<open>insertBefore(node, firstChild)\<close> moves the node to the front and
  \<^verbatim>\<open>appendChild(node)\<close> moves it to the end.
\<close>

definition insertBefore_first :: "'a \<Rightarrow> 'a list \<Rightarrow> 'a list" where
  "insertBefore_first k nodes = k # removeAll k nodes"

definition appendChild :: "'a \<Rightarrow> 'a list \<Rightarrow> 'a list" where
  "appendChild k nodes = removeAll k nodes @ [k]"

definition reorder :: "'a list \<Rightarrow> 'a list \<Rightarrow> 'a list" where
  "reorder childOrder successorOrder =
     (case longestChain childOrder successorOrder of
        (start, end') \<Rightarrow>
          (let startKeys = js_slice successorOrder 0 start;
               nodes = fold insertBefore_first (rev startKeys) childOrder;
               endKeys = js_slice_from successorOrder (end' + 1)
           in fold appendChild endKeys nodes))"

text \<open>
  A common contiguous run of \<open>n\<close> keys: positions \<open>i .. i + n - 1\<close> of \<open>target\<close> hold
  the keys of positions \<open>j .. j + n - 1\<close> of \<open>current\<close>, in the same order.
\<close>

definition common_run :: "'a list \<Rightarrow> 'a list \<Rightarrow> nat \<Rightarrow> nat \<Rightarrow> nat \<Rightarrow> bool" where
  "common_run current target i j n \<longleftrightarrow>
     1 \<le> n \<and> i + n \<le> length target \<and> j + n \<le> length current
     \<and> take n (drop i target) = take n (drop j current)"

text \<open>
  The state of the outer loop before iteration \<open>i\<close>: \<open>longest\<close> is the greatest length
  found at the positions below \<open>i\<close> and \<open>chainStart\<close> the first position that reaches it.
\<close>

definition chain_inv :: "'a list \<Rightarrow> 'a list \<Rightarrow> nat \<Rightarrow> nat \<Rightarrow> nat \<Rightarrow> bool" where
  "chain_inv original successor i longest chainStart \<longleftrightarrow>
     (\<forall>i'<i. chain_at original successor i' \<le> longest)
     \<and> (if i = 0 then longest = 0 \<and> chainStart = 0
         else chainStart < i \<and> chain_at original successor chainStart = longest
              \<and> (\<forall>i'<chainStart. chain_at original successor i' < longest))"

subsection \<open>JavaScript values and objects\<close>

text \<open>
  The values that attributes, element keys and the state hold. Numbers are modelled by the
  integers, with \<open>NaN\<close> apart because \<^verbatim>\<open>===\<close> treats it specially; \<open>Function\<close> and
  \<open>Ref\<close> carry the identity of a function and of an object or array (a heap address);
  \<open>Inherited k\<close> is the member \<open>k\<close> that a plain object inherits from
  \<^verbatim>\<open>Object.prototype\<close>.
\<close>

datatype val =
    Undefined
  | Null
  | Bool bool
  | Num int
  | NaN
  | Str string
  | Function nat
  | Ref nat
  | Inherited string

text \<open>
  What is thrown: the error of a failed \<^verbatim>\<open>assert\<close> (with its message), a TypeError, the
  SyntaxError of \<^verbatim>\<open>JSON.parse\<close>, and whatever a function of the program that uses the
  library throws.
\<close>

datatype error = AssertionError string | TypeError | SyntaxError | Thrown

text \<open>\<^verbatim>\<open>a === b\<close> (so \<^verbatim>\<open>a !== b\<close> is its negation), and \<^verbatim>\<open>typeof v === 'function'\<close>.\<close>

definition strict_eq :: "val \<Rightarrow> val \<Rightarrow> bool" where
  "strict_eq a b \<longleftrightarrow> a = b \<and> a \<noteq> NaN"

fun isFunction :: "val \<Rightarrow> bool" where
  "isFunction (Function f) = True"
| "isFunction (Inherited k) = (k \<noteq> ''__proto__'')"
| "isFunction v = False"

text \<open>
  A plain object: its own enumerable properties, in the order of their creation. The
  names below are the members of \<^verbatim>\<open>Object.prototype\<close>, which a read \<^verbatim>\<open>obj[k]\<close>
  finds when \<open>obj\<close> has no own property \<open>k\<close>.
\<close>

type_synonym 'v object = "(string \<times> 'v) list"

definition object_prototype :: "string list" where
  "object_prototype =
     [''constructor'', ''hasOwnProperty'', ''isPrototypeOf'', ''propertyIsEnumerable'',
      ''toLocaleString'', ''toString'', ''valueOf'', ''__proto__'',
      ''__defineGetter__'', ''__defineSetter__'', ''__lookupGetter__'', ''__lookupSetter__'']"

definition get_property :: "val object \<Rightarrow> string \<Rightarrow> val" where
  "get_property obj k =
     (case map_of obj k of
        Some v \<Rightarrow> v
      | None \<Rightarrow> if k \<in> set object_prototype then Inherited k else Undefined)"

fun set_property :: "string \<Rightarrow> 'v \<Rightarrow> 'v object \<Rightarrow> 'v object" where
  "set_property k v [] = [(k, v)]"
| "set_property k v (p # ps) = (if fst p = k then (k, v) # ps else p # set_property k v ps)"

definition delete_property :: "string \<Rightarrow> 'v object \<Rightarrow> 'v object" where
  "delete_property k obj = filter (\<lambda>p. fst p \<noteq> k) obj"

text \<open>
  \<^verbatim>\<open>Object.keys\<close> lists the array indices (canonical numeric strings below \<open>2^32 - 1\<close>)
  in ascending order, then the other keys in the order of their creation.
  \<^verbatim>\<open>Object.assign(target, source)\<close> sets the own properties of \<open>source\<close> on \<open>target\<close>, and
  \<open>merged_keys\<close> is \<^verbatim>\<open>Object.keys(Object.assign({}, original, successor))\<close>.
\<close>

definition is_digit :: "char \<Rightarrow> bool" where
  "is_digit c \<longleftrightarrow> c \<in> set ''0123456789''"

definition digits_value :: "string \<Rightarrow> int" where
  "digits_value s = foldl (\<lambda>n c. 10 * n + (of_char c - 48)) 0 s"

definition is_array_index :: "string \<Rightarrow> bool" where
  "is_array_index s \<longleftrightarrow>
     s \<noteq> [] \<and> list_all is_digit s \<and> (length s = 1 \<or> hd s \<noteq> CHR ''0'')
     \<and> digits_value s < 2 ^ 32 - 1"

definition own_keys :: "'v object \<Rightarrow> string list" where
  "own_keys obj =
     (let ks = map fst obj
      in sort_key digits_value (filter is_array_index ks) @ filter (\<lambda>k. \<not> is_array_index k) ks)"

definition object_assign :: "'v object \<Rightarrow> 'v object \<Rightarrow> 'v object" where
  "object_assign target source =
     fold (\<lambda>k t. case map_of source k of Some v \<Rightarrow> set_property k v t | None \<Rightarrow> t)
       (own_keys source) target"

definition merged_keys :: "'v object \<Rightarrow> 'v object \<Rightarrow> string list" where
  "merged_keys original successor = own_keys (object_assign (object_assign [] original) successor)"

subsection \<open>The shallow diff of two attribute objects\<close>

text \<open>
  \<^verbatim>\<open>diff\<close> of src/utils.js (287-307): a key whose value is a function on either side is
  pushed and the loop continues with the next key; otherwise the key is pushed when the
  values differ.
\<close>

fun diff_loop :: "val object \<Rightarrow> val object \<Rightarrow> string list \<Rightarrow> string list \<Rightarrow> string list" where
  "diff_loop original successor [] modifiedKeys = modifiedKeys"
| "diff_loop original successor (key # keys) modifiedKeys =
     (let valueOriginal = get_property original key;
          valueSuccessor = get_property successor key
      in if isFunction valueOriginal \<or> isFunction valueSuccessor
         then diff_loop original successor keys (modifiedKeys @ [key])
         else if \<not> strict_eq valueOriginal valueSuccessor
         then diff_loop original successor keys (modifiedKeys @ [key])
         else diff_loop original successor keys modifiedKeys)"

definition diff :: "val object \<Rightarrow> val object \<Rightarrow> string list" where
  "diff original successor = diff_loop original successor (merged_keys original successor) []"

text \<open>
  \<^verbatim>\<open>diff\<close> as bundled in dist/lite.js (769-784): the same loop without the
  \<^verbatim>\<open>continue\<close>, so both tests run for every key.
\<close>

fun diff_lite_loop :: "val object \<Rightarrow> val object \<Rightarrow> string list \<Rightarrow> string list \<Rightarrow> string list" where
  "diff_lite_loop original successor [] modifiedKeys = modifiedKeys"
| "diff_lite_loop original successor (key # keys) modifiedKeys =
     (let valueOriginal = get_property original key;
          valueSuccessor = get_property successor key;
          modifiedKeys1 = (if isFunction valueOriginal \<or> isFunction valueSuccessor
                           then modifiedKeys @ [key] else modifiedKeys);
          modifiedKeys2 = (if \<not> strict_eq valueOriginal valueSuccessor
                           then modifiedKeys1 @ [key] else modifiedKeys1)
      in diff_lite_loop original successor keys modifiedKeys2)"

definition diff_lite :: "val object \<Rightarrow> val object \<Rightarrow> string list" where
  "diff_lite original successor = diff_lite_loop original successor (merged_keys original successor) []"


subsection \<open>The virtual dom and its update\<close>

text \<open>
  A vdom node is a text node \<^verbatim>\<open>{text}\<close> or an element
  \<^verbatim>\<open>{tagName, attributes, children, childOrder}\<close>. The \<^verbatim>\<open>DOM\<close> field is left out:
  a host node is named by the path of keys that leads to it, and the operations the
  update performs on host nodes are recorded as a list of \<open>host_op\<close>:
  \<^verbatim>\<open>appendChild\<close>, \<^verbatim>\<open>removeChild\<close> and \<^verbatim>\<open>replaceChild\<close> on the parent (path of the parent,
  key of the child), the assignment of \<^verbatim>\<open>nodeValue\<close> and of a property on a node (path
  of the node), and \<^verbatim>\<open>insertBefore(child, firstChild)\<close> on the parent.
\<close>

datatype vnode =
    TextNode string
  | Element string "val object" "vnode object" "string list"

datatype host_op =
    AppendChild "string list" string
  | RemoveChild "string list" string
  | ReplaceChild "string list" string
  | SetNodeValue "string list" string
  | SetProperty "string list" string val
  | InsertBefore "string list" string

text \<open>
  \<^verbatim>\<open>render\<close> (lite.js 792-812) creates the host nodes of a vdom node; it fails with a
  TypeError when a key of \<^verbatim>\<open>childOrder\<close> has no child. \<open>renders\<close> tells whether it
  returns. Child keys are read as own properties: \<^verbatim>\<open>build\<close> refuses a child key that
  is the name of a member of \<^verbatim>\<open>Object.prototype\<close>.
\<close>

lemma size_map_of:
  "map_of cs k = Some (c::vnode) \<Longrightarrow> size c < Suc (size_list (size_prod (\<lambda>_. 0) size) cs)"
  by (induction cs) (auto split: if_splits)

lemma size_map_of2:
  "map_of cs k = Some (c::vnode) \<Longrightarrow> map_of cs' k = Some (c'::vnode)
   \<Longrightarrow> size c + size c' < Suc (Suc (size_list (size_prod (\<lambda>_. 0) size) cs
                                       + size_list (size_prod (\<lambda>_. 0) size) cs'))"
  using size_map_of[of cs k c] size_map_of[of cs' k c'] by simp

function renders :: "vnode \<Rightarrow> bool" where
  "renders (TextNode t) = True"
| "renders (Element tag attrs children order) =
     list_all (\<lambda>key. case map_of children key of None \<Rightarrow> False | Some child \<Rightarrow> renders child) order"
  by pat_completeness auto
termination
  by (relation "measure size") (auto dest: size_map_of)


text \<open>\<^verbatim>\<open>childOrder.splice(k, 1)\<close>; a negative \<open>k\<close> counts from the end.\<close>

definition splice1 :: "'a list \<Rightarrow> int \<Rightarrow> 'a list" where
  "splice1 xs k =
     (let n = int (length xs);
          s = nat (if k < 0 then max (n + k) 0 else min k n)
      in take s xs @ drop (s + 1) xs)"

text \<open>
  The result of \<^verbatim>\<open>_update\<close> on one node: what \<^verbatim>\<open>parent.children[parentKey]\<close> holds
  afterwards, the host operations performed, and whether a TypeError was thrown
  (the operations performed before it stay performed).

  The loop over \<^verbatim>\<open>childKeys\<close> (lite.js 900-911) visits every key once, so the child
  it reads at a key is the child that the original had on entry; \<open>child_loop\<close> threads
  \<^verbatim>\<open>childOrder\<close>, the children of the original and the operations through the
  results of the recursive calls.
\<close>

type_synonym update_result = "vnode option \<times> host_op list \<times> bool"

fun child_loop :: "vnode object \<Rightarrow> (string \<times> update_result) list \<Rightarrow> vnode object \<Rightarrow> string list
    \<Rightarrow> host_op list \<Rightarrow> vnode object \<times> string list \<times> host_op list \<times> bool" where
  "child_loop successorChildren [] children childOrder ops = (children, childOrder, ops, False)"
| "child_loop successorChildren ((key, (node, ops', threw)) # rest) children childOrder ops =
     (let childOrder1 =
            (if map_of children key = None then childOrder @ [key]
             else if map_of successorChildren key = None
             then splice1 childOrder (indexOf childOrder key)
             else childOrder);
          children1 =
            (case node of
               None \<Rightarrow> delete_property key children
             | Some child \<Rightarrow> set_property key child children)
      in if threw then (children1, childOrder1, ops @ ops', True)
         else child_loop successorChildren rest children1 childOrder1 (ops @ ops'))"

text \<open>
  The two loops that move host children (lite.js 936-947); reading the \<^verbatim>\<open>DOM\<close> field
  of a missing child throws.
\<close>

fun move_loop :: "(string list \<Rightarrow> string \<Rightarrow> host_op) \<Rightarrow> string list \<Rightarrow> vnode object
    \<Rightarrow> string list \<Rightarrow> host_op list \<Rightarrow> host_op list \<times> bool" where
  "move_loop move path children [] ops = (ops, False)"
| "move_loop move path children (key # keys) ops =
     (if map_of children key = None then (ops, True)
      else move_loop move path children keys (ops @ [move path key]))"

text \<open>The branch for nodes of different \<^verbatim>\<open>tagName\<close> (lite.js 856-872).\<close>

definition replace_node :: "string list \<Rightarrow> string \<Rightarrow> vnode \<Rightarrow> vnode \<Rightarrow> update_result" where
  "replace_node parent parentKey original successor =
     (if renders successor then (Some successor, [ReplaceChild parent parentKey], False)
      else (Some original, [], True))"

text \<open>\<^verbatim>\<open>_update(original, successor, parent, parentKey)\<close> (lite.js 837-948).\<close>

function update_node :: "string list \<Rightarrow> string \<Rightarrow> vnode option \<Rightarrow> vnode option \<Rightarrow> update_result" where
  "update_node parent parentKey None None = (None, [], True)"
| "update_node parent parentKey None (Some successor) =
     (if renders successor then (Some successor, [AppendChild parent parentKey], False)
      else (None, [], True))"
| "update_node parent parentKey (Some original) None = (None, [RemoveChild parent parentKey], False)"
| "update_node parent parentKey (Some (TextNode t)) (Some (TextNode t')) =
     (if t \<noteq> t' then (Some (TextNode t'), [SetNodeValue (parent @ [parentKey]) t'], False)
      else (Some (TextNode t), [], False))"
| "update_node parent parentKey (Some (TextNode t)) (Some (Element tag' attrs' children' order')) =
     replace_node parent parentKey (TextNode t) (Element tag' attrs' children' order')"
| "update_node parent parentKey (Some (Element tag attrs children order)) (Some (TextNode t')) =
     replace_node parent parentKey (Element tag attrs children order) (TextNode t')"
| "update_node parent parentKey (Some (Element tag attrs children order))
       (Some (Element tag' attrs' children' order')) =
     (if tag \<noteq> tag'
      then replace_node parent parentKey (Element tag attrs children order)
             (Element tag' attrs' children' order')
      else
        (let path = parent @ [parentKey];
             attributesDiff = diff_lite attrs attrs';
             attrs1 = fold (\<lambda>key a. set_property key (get_property attrs' key) a) attributesDiff attrs;
             ops1 = map (\<lambda>key. SetProperty path key (get_property attrs' key)) attributesDiff;
             childKeys = merged_keys children children';
             results = map (\<lambda>key. (key, update_node path key (map_of children key) (map_of children' key)))
                         childKeys
         in case child_loop children' results children order ops1 of
              (children1, childOrder, ops2, threw) \<Rightarrow>
                if threw \<or> childOrder = [] then (Some (Element tag attrs1 children1 order'), ops2, threw)
                else
                  (case longestChain childOrder order' of
                     (start, end') \<Rightarrow>
                       (let startKeys = js_slice order' 0 start;
                            endKeys = js_slice_from order' (end' + 1)
                        in case move_loop InsertBefore path children1 (rev startKeys) ops2 of
                             (ops3, threw3) \<Rightarrow>
                               if threw3 then (Some (Element tag attrs1 children1 order'), ops3, True)
                               else
                                 (case move_loop AppendChild path children1 endKeys ops3 of
                                    (ops4, threw4) \<Rightarrow>
                                      (Some (Element tag attrs1 children1 order'), ops4, threw4))))))"
  by pat_completeness auto
termination
  by (relation "measure (\<lambda>(parent, parentKey, original, successor).
         (case original of None \<Rightarrow> 0 | Some v \<Rightarrow> size v)
         + (case successor of None \<Rightarrow> 0 | Some v \<Rightarrow> size v))")
     (auto split: option.splits dest: size_map_of simp: size_map_of2)

declare update_node.simps [simp del]

text \<open>
  \<^verbatim>\<open>update(target, newVDOM, VDOM)\<close> (lite.js 830-960): the assertion on the target, then
  \<^verbatim>\<open>_update\<close> from the root, whose exception is caught and logged.
\<close>

definition update :: "bool \<Rightarrow> vnode \<Rightarrow> vnode \<Rightarrow> error + update_result" where
  "update target_isNode newVDOM VDOM =
     (if \<not> target_isNode then Inl (AssertionError ''view.dom.update : target is not a DOM node'')
      else Inr (update_node [] ''root'' (Some VDOM) (Some newVDOM)))"


text \<open>
  Values that the diff compares by \<^verbatim>\<open>!==\<close> and finds equal to themselves: not a
  function and not \<open>NaN\<close>; and the trees whose attributes hold such values only.
\<close>

definition comparable :: "val \<Rightarrow> bool" where
  "comparable v \<longleftrightarrow> \<not> isFunction v \<and> v \<noteq> NaN"

fun comparable_tree :: "vnode \<Rightarrow> bool" where
  "comparable_tree (TextNode t) = True"
| "comparable_tree (Element tag attrs children order) =
     (list_all (\<lambda>p. comparable (snd p)) attrs \<and> list_all (\<lambda>p. comparable_tree (snd p)) children)"

subsection \<open>\<^verbatim>\<open>build\<close>: from element syntax to the vdom\<close>

text \<open>
  \<^verbatim>\<open>String(i)\<close> for the index \<open>i\<close> of a child, in decimal, and the test
  \<^verbatim>\<open>String(key).match(/^[\w\d-_]+$/g)\<close> of a child key: at least one character, each a
  word character or a hyphen.

  \<^verbatim>\<open>String(n)\<close> for a number \<open>n\<close> in general is the parameter \<open>str\<close> of the functions
  below. JavaScript writes a number by the shortest digits that read back as the same
  number: an integer of magnitude up to \<open>2^53\<close> in plain decimal, and a number from
  \<open>10^21\<close> on in exponent notation (\<^verbatim>\<open>1e+21\<close>, which the test of a key refuses). Nothing
  is assumed about \<open>str\<close>: everything proved below holds for every such function.
\<close>

function string_of_nat :: "nat \<Rightarrow> string" where
  "string_of_nat n =
     (if n < 10 then [''0123456789'' ! n]
      else string_of_nat (n div 10) @ [''0123456789'' ! (n mod 10)])"
  by pat_completeness auto
termination
  by (relation "measure id") auto

declare string_of_nat.simps [simp del]

type_synonym printer = "int \<Rightarrow> string"

definition is_word_char :: "char \<Rightarrow> bool" where
  "is_word_char c \<longleftrightarrow>
     c \<in> set ''abcdefghijklmnopqrstuvwxyzABCDEFGHIJKLMNOPQRSTUVWXYZ0123456789_''"

definition valid_key :: "string \<Rightarrow> bool" where
  "valid_key s \<longleftrightarrow> s \<noteq> [] \<and> list_all (\<lambda>c. is_word_char c \<or> c = CHR ''-'') s"

text \<open>
  What \<^verbatim>\<open>build\<close> is given: a boolean, \<^verbatim>\<open>null\<close>, a number, a string, an array, or
  anything else (\<open>EOther\<close>: \<^verbatim>\<open>undefined\<close>, an object, a function). Of an array the first
  three entries matter: the head (a tag string, a component function, or anything else),
  the attributes or props (\<^verbatim>\<open>undefined\<close>, a plain object, or anything else) and the
  children (\<^verbatim>\<open>undefined\<close>, an array, or anything else). A component is a function of the
  program using the library; \<open>Component r\<close> records what its call
  \<^verbatim>\<open>component(Object.assign({}, props, {children}), ancestry)\<close> yields: the element it
  returns, or \<open>None\<close> when it throws.
\<close>

datatype props = NoProps | Props "val object" | BadProps

datatype element =
    EBool bool
  | ENull
  | ENum int
  | ENaN
  | EStr string
  | EOther
  | EArr head props kids
and head = TagString string | Component "element option" | OtherHead
and kids = NoKids | Kids "element list" | BadKids

text \<open>
  The errors that the assertions of \<^verbatim>\<open>build\<close> throw, each with the ancestry and the
  culprit that the message shows.
\<close>

datatype build_error =
    NotRecognizedType string
  | ComponentPropsNotObject string
  | ComponentChildrenNotArray string
  | ComponentThrew
  | TagNotString string
  | AttributesNotObject string
  | ChildrenNotArray string
  | TagNotParsed string string
  | InvalidKeyType string val
  | InvalidKeyCharacter string val
  | DuplicateChildKey string string

text \<open>
  The key of a built child (lite.js 676-685): the index in the child list unless the child
  has attributes with a \<^verbatim>\<open>key\<close> member, which must be a number or a string and, written
  as a string, be made of the characters above; the key is then that string. The culprit
  shown by both assertions is the key as the attribute holds it.
\<close>

definition checked_key :: "string \<Rightarrow> val \<Rightarrow> string \<Rightarrow> build_error + string" where
  "checked_key ancestry key s = (if valid_key s then Inr s else Inl (InvalidKeyCharacter ancestry key))"

fun child_key :: "printer \<Rightarrow> string \<Rightarrow> nat \<Rightarrow> vnode \<Rightarrow> build_error + string" where
  "child_key str ancestry i (TextNode t) = Inr (string_of_nat i)"
| "child_key str ancestry i (Element tag attrs children order) =
     (case map_of attrs ''key'' of
        None \<Rightarrow> Inr (string_of_nat i)
      | Some (Num n) \<Rightarrow> checked_key ancestry (Num n) (str n)
      | Some NaN \<Rightarrow> checked_key ancestry NaN ''NaN''
      | Some (Str s) \<Rightarrow> checked_key ancestry (Str s) s
      | Some key \<Rightarrow> Inl (InvalidKeyType ancestry key))"

text \<open>
  \<^verbatim>\<open>children[key]\<close> is truthy when \<open>children\<close> has the key (its values are vdom nodes) and
  when the key names a member of \<^verbatim>\<open>Object.prototype\<close>.
\<close>

definition has_member :: "'v object \<Rightarrow> string \<Rightarrow> bool" where
  "has_member obj k \<longleftrightarrow> map_of obj k \<noteq> None \<or> k \<in> set object_prototype"

text \<open>
  \<^verbatim>\<open>build(element, ancestry)\<close> (lite.js 573-697), with the loop over the child list
  (672-689) as \<open>build_children\<close>. The parsing of the tag shorthand (629-665: the regular
  expression for \<^verbatim>\<open>tagName #id .class | style\<close> and the merging of \<^verbatim>\<open>id\<close>,
  \<^verbatim>\<open>className\<close> and \<^verbatim>\<open>style\<close> into the attributes) is the parameter \<open>sh\<close>: it maps the tag
  string and the attributes to the tag name and the completed attributes, or to \<open>None\<close>
  when the tag cannot be parsed. Everything proved below holds for every such function.
  \<open>plain_tag\<close> is what the parsing does for a tag that is a bare name, such as \<^verbatim>\<open>ul\<close>,
  and attributes without \<^verbatim>\<open>className\<close>: the name is the tag name and the attributes stay
  as they are.
\<close>

type_synonym shorthand = "string \<Rightarrow> val object \<Rightarrow> (string \<times> val object) option"

definition plain_tag :: shorthand where
  "plain_tag tagType attributes = Some (tagType, attributes)"

fun attributes_of :: "props \<Rightarrow> val object" where
  "attributes_of (Props a) = a"
| "attributes_of p = []"

fun childList_of :: "kids \<Rightarrow> element list" where
  "childList_of (Kids cs) = cs"
| "childList_of k = []"

lemma size_childList_of: "size_list size (childList_of k) \<le> size k"
  by (cases k) simp_all

function build :: "shorthand \<Rightarrow> printer \<Rightarrow> element \<Rightarrow> string \<Rightarrow> build_error + vnode"
and build_children :: "shorthand \<Rightarrow> printer \<Rightarrow> string \<Rightarrow> element list \<Rightarrow> nat \<Rightarrow> vnode object
    \<Rightarrow> string list \<Rightarrow> build_error + vnode object \<times> string list" where
  "build sh str (EBool b) ancestry = Inr (TextNode [])"
| "build sh str ENull ancestry = Inr (TextNode [])"
| "build sh str (ENum n) ancestry = Inr (TextNode (str n))"
| "build sh str ENaN ancestry = Inr (TextNode ''NaN'')"
| "build sh str (EStr s) ancestry = Inr (TextNode s)"
| "build sh str EOther ancestry = Inl (NotRecognizedType ancestry)"
| "build sh str (EArr (Component result) props kids) ancestry =
     (if props = BadProps then Inl (ComponentPropsNotObject ancestry)
      else if kids = BadKids then Inl (ComponentChildrenNotArray ancestry)
      else case result of
             None \<Rightarrow> Inl ComponentThrew
           | Some element \<Rightarrow> build sh str element ''root'')"
| "build sh str (EArr OtherHead props kids) ancestry = Inl (TagNotString ancestry)"
| "build sh str (EArr (TagString tagType) props kids) ancestry =
     (if props = BadProps then Inl (AttributesNotObject ancestry)
      else if kids = BadKids then Inl (ChildrenNotArray ancestry)
      else case sh tagType (attributes_of props) of
             None \<Rightarrow> Inl (TagNotParsed ancestry tagType)
           | Some (tagName, attributes) \<Rightarrow>
               (case build_children sh str (ancestry @ '' -> '' @ tagType)
                       (childList_of kids) 0 [] [] of
                  Inl e \<Rightarrow> Inl e
                | Inr (children, childOrder) \<Rightarrow> Inr (Element tagName attributes children childOrder)))"
| "build_children sh str ancestry [] i children childOrder = Inr (children, childOrder)"
| "build_children sh str ancestry (childElement # rest) i children childOrder =
     (case build sh str childElement ancestry of
        Inl e \<Rightarrow> Inl e
      | Inr child \<Rightarrow>
          (case child_key str ancestry i child of
             Inl e \<Rightarrow> Inl e
           | Inr key \<Rightarrow>
               if has_member children key then Inl (DuplicateChildKey ancestry key)
               else build_children sh str ancestry rest (i + 1)
                      (set_property key child children) (childOrder @ [key])))"
  by pat_completeness auto
termination
proof (relation "measure (case_sum (\<lambda>(sh, str, element, ancestry). size element)
                  (\<lambda>(sh, str, ancestry, childList, rest). size_list size childList))", goal_cases)
  case (3 sh str tagType props kids ancestry x2 x y)
  have "size_list size (childList_of kids) \<le> size kids" by (rule size_childList_of)
  then show ?case by simp
qed simp_all

declare build.simps [simp del] build_children.simps [simp del]


text \<open>
  The normalized keys that the children of a list resolve to, in order: \<open>None\<close> as soon as
  a child cannot be built or its key is refused.
\<close>

fun resolved_keys :: "shorthand \<Rightarrow> printer \<Rightarrow> string \<Rightarrow> element list \<Rightarrow> nat \<Rightarrow> string list option" where
  "resolved_keys sh str ancestry [] i = Some []"
| "resolved_keys sh str ancestry (childElement # rest) i =
     (case build sh str childElement ancestry of
        Inl e \<Rightarrow> None
      | Inr child \<Rightarrow>
          (case child_key str ancestry i child of
             Inl e \<Rightarrow> None
           | Inr key \<Rightarrow> map_option (Cons key) (resolved_keys sh str ancestry rest (i + 1))))"

text \<open>
  The first key of a list, read from the left, that is among the keys seen before it or is
  the name of a member of \<^verbatim>\<open>Object.prototype\<close>: the key at which the test
  \<^verbatim>\<open>!children[key]\<close> fails first.
\<close>

fun first_refused :: "string list \<Rightarrow> string list \<Rightarrow> string option" where
  "first_refused seen [] = None"
| "first_refused seen (key # keys) =
     (if key \<in> set seen \<or> key \<in> set object_prototype then Some key
      else first_refused (seen @ [key]) keys)"

subsection \<open>The heap, \<^verbatim>\<open>deepCopy\<close> and the state module\<close>

text \<open>
  Objects and arrays live in a heap: a list of cells, the address of a cell being its
  position; \<open>Ref a\<close> is the reference to the cell at \<open>a\<close>. New cells are added at the end.
  \<open>json\<close> is the text that \<^verbatim>\<open>JSON.stringify\<close> writes, as a tree.
\<close>

datatype cell = ArrayCell "val list" | ObjectCell "val object"

type_synonym heap = "cell list"

datatype json =
    JNull
  | JBool bool
  | JNum int
  | JStr string
  | JArr "json list"
  | JObj "(string \<times> json) list"

text \<open>
  \<^verbatim>\<open>JSON.stringify(v)\<close>: \<open>Inr None\<close> when it returns \<^verbatim>\<open>undefined\<close> (for \<^verbatim>\<open>undefined\<close> and
  for a function), \<open>Inl TypeError\<close> for a cyclic structure, else the text. In an array
  \<^verbatim>\<open>undefined\<close> and functions become \<^verbatim>\<open>null\<close>, in an object their keys are left out;
  \<open>NaN\<close> becomes \<^verbatim>\<open>null\<close>; the keys of an object come in the order of \<^verbatim>\<open>Object.keys\<close>.
  The first argument bounds the depth of the traversal: with more fuel than the heap has
  cells, running out of it means that a cell was met twice on one path, a cycle. A
  reference outside the heap, which no program can hold, is answered like a cycle. A
  \<^verbatim>\<open>toJSON\<close> method, which \<^verbatim>\<open>JSON.stringify\<close> would call, is not modelled: such a member
  is treated as any other function-valued member.
\<close>

fun sequence :: "(error + 'a) list \<Rightarrow> error + 'a list" where
  "sequence [] = Inr []"
| "sequence (Inl e # rs) = Inl e"
| "sequence (Inr x # rs) = (case sequence rs of Inl e \<Rightarrow> Inl e | Inr xs \<Rightarrow> Inr (x # xs))"

definition own_value :: "val object \<Rightarrow> string \<Rightarrow> val" where
  "own_value obj k = (case map_of obj k of Some v \<Rightarrow> v | None \<Rightarrow> Undefined)"

fun serialize :: "nat \<Rightarrow> heap \<Rightarrow> val \<Rightarrow> error + json option" where
  "serialize n h Undefined = Inr None"
| "serialize n h Null = Inr (Some JNull)"
| "serialize n h (Bool b) = Inr (Some (JBool b))"
| "serialize n h (Num i) = Inr (Some (JNum i))"
| "serialize n h NaN = Inr (Some JNull)"
| "serialize n h (Str s) = Inr (Some (JStr s))"
| "serialize n h (Function f) = Inr None"
| "serialize n h (Inherited k) = (if k = ''__proto__'' then Inr (Some (JObj [])) else Inr None)"
| "serialize 0 h (Ref a) = Inl TypeError"
| "serialize (Suc n) h (Ref a) =
     (if a < length h then
        (case h ! a of
           ArrayCell vs \<Rightarrow>
             (case sequence (map (serialize n h) vs) of
                Inl e \<Rightarrow> Inl e
              | Inr js \<Rightarrow> Inr (Some (JArr (map (\<lambda>j. case j of None \<Rightarrow> JNull | Some x \<Rightarrow> x) js))))
         | ObjectCell kvs \<Rightarrow>
             (case sequence (map (\<lambda>k. serialize n h (own_value kvs k)) (own_keys kvs)) of
                Inl e \<Rightarrow> Inl e
              | Inr js \<Rightarrow>
                  Inr (Some (JObj (concat (map2 (\<lambda>k j. case j of None \<Rightarrow> [] | Some x \<Rightarrow> [(k, x)])
                                              (own_keys kvs) js))))))
      else Inl TypeError)"

text \<open>\<^verbatim>\<open>JSON.parse\<close> of such a text: every array and object of it is a new cell.\<close>

fun alloc :: "json \<Rightarrow> heap \<Rightarrow> val \<times> heap"
and alloc_list :: "json list \<Rightarrow> heap \<Rightarrow> val list \<times> heap"
and alloc_fields :: "(string \<times> json) list \<Rightarrow> heap \<Rightarrow> val object \<times> heap" where
  "alloc JNull h = (Null, h)"
| "alloc (JBool b) h = (Bool b, h)"
| "alloc (JNum i) h = (Num i, h)"
| "alloc (JStr s) h = (Str s, h)"
| "alloc (JArr js) h = (case alloc_list js h of (vs, h') \<Rightarrow> (Ref (length h'), h' @ [ArrayCell vs]))"
| "alloc (JObj fs) h = (case alloc_fields fs h of (kvs, h') \<Rightarrow> (Ref (length h'), h' @ [ObjectCell kvs]))"
| "alloc_list [] h = ([], h)"
| "alloc_list (j # js) h =
     (case alloc j h of (v, h1) \<Rightarrow> case alloc_list js h1 of (vs, h2) \<Rightarrow> (v # vs, h2))"
| "alloc_fields [] h = ([], h)"
| "alloc_fields ((k, j) # fs) h =
     (case alloc j h of (v, h1) \<Rightarrow> case alloc_fields fs h1 of (kvs, h2) \<Rightarrow> ((k, v) # kvs, h2))"

text \<open>
  \<^verbatim>\<open>deepCopy\<close> (utils.js 65-71, lite.js 121-127): \<^verbatim>\<open>undefined\<close> is returned as it is;
  otherwise \<^verbatim>\<open>JSON.parse(JSON.stringify(obj))\<close>, where \<^verbatim>\<open>JSON.parse(undefined)\<close> throws a
  SyntaxError. The result comes with the heap after the call.
\<close>

definition deepCopy :: "heap \<Rightarrow> val \<Rightarrow> (error + val) \<times> heap" where
  "deepCopy h obj =
     (if obj = Undefined then (Inr Undefined, h)
      else case serialize (length h + 1) h obj of
             Inl e \<Rightarrow> (Inl e, h)
           | Inr None \<Rightarrow> (Inl SyntaxError, h)
           | Inr (Some j) \<Rightarrow> (case alloc j h of (v, h') \<Rightarrow> (Inr v, h')))"

text \<open>
  The state module (lite.js 1260-1307). \<open>state\<close> is its variable of that name, \<open>None\<close>
  standing for the private object \<^verbatim>\<open>initial\<close> that marks the unset state.

  The functions of the program that uses the library are parameters: \<open>call f a x\<close> is
  the call \<^verbatim>\<open>f(x)\<close> of the function value \<open>f\<close>, and \<open>render a s\<close> is what the view module
  does on \<^verbatim>\<open>emit({update: false})\<close> with the new state \<open>s\<close> (lite.js 491-508: nothing
  unless a target, a builder and a build function are set; else the builder runs). Such
  code may do anything to the objects of the heap and may itself call \<^verbatim>\<open>setState\<close>, so
  both take the whole app and return it as they leave it, with the value returned or the
  error thrown. The kit registers two listeners for \<^verbatim>\<open>state\<close> events, the view module's
  and the state module's; listeners that the program adds itself are outside the model.
\<close>

record app =
  heap :: heap
  state :: "val option"

type_synonym caller = "val \<Rightarrow> app \<Rightarrow> val \<Rightarrow> (error + val) \<times> app"
type_synonym renderer = "app \<Rightarrow> val \<Rightarrow> error option \<times> app"

text \<open>
  \<^verbatim>\<open>deepCopy(state)\<close> in \<^verbatim>\<open>setState\<close>: the copy of the marker \<^verbatim>\<open>{}\<close> is a new empty
  object.
\<close>

definition copy_state :: "app \<Rightarrow> (error + val) \<times> heap" where
  "copy_state a =
     (case state a of
        None \<Rightarrow> (case alloc (JObj []) (heap a) of (v, h') \<Rightarrow> (Inr v, h'))
      | Some s \<Rightarrow> deepCopy (heap a) s)"

text \<open>
  \<^verbatim>\<open>handler(newState)\<close>, that is \<^verbatim>\<open>emit({state: newState})\<close>: the listener of the view
  module (lite.js 474-478), registered first, asserts that the state is defined and
  renders; then the listener of the state module (1272-1274) stores the state. An
  exception of the first keeps the second from running.
\<close>

definition emit_state :: "renderer \<Rightarrow> val \<Rightarrow> app \<Rightarrow> error option \<times> app" where
  "emit_state render newState a =
     (if newState = Undefined
      then (Some (AssertionError ''view.emit.state : new state is not defined''), a)
      else case render a newState of
             (Some e, a') \<Rightarrow> (Some e, a')
           | (None, a') \<Rightarrow> (None, a'\<lparr>state := Some newState\<rparr>))"

text \<open>\<^verbatim>\<open>setState\<close> (lite.js 1292-1295) and \<^verbatim>\<open>getState\<close> (1297-1300).\<close>

definition setState :: "caller \<Rightarrow> renderer \<Rightarrow> val \<Rightarrow> app \<Rightarrow> error option \<times> app" where
  "setState call render replacement a =
     (if isFunction replacement then
        (case copy_state a of
           (Inl e, h1) \<Rightarrow> (Some e, a\<lparr>heap := h1\<rparr>)
         | (Inr c, h1) \<Rightarrow>
             (case call replacement (a\<lparr>heap := h1\<rparr>) c of
                (Inl e, a2) \<Rightarrow> (Some e, a2)
              | (Inr newState, a2) \<Rightarrow> emit_state render newState a2))
      else emit_state render replacement a)"

definition getState :: "app \<Rightarrow> (error + val) \<times> app" where
  "getState a =
     (case state a of
        None \<Rightarrow> (Inl (AssertionError ''state.getState : cannot get state before it has been set''), a)
      | Some s \<Rightarrow> (case deepCopy (heap a) s of (r, h') \<Rightarrow> (r, a\<lparr>heap := h'\<rparr>)))"

text \<open>
  A value is JSON-shaped in a heap when \<open>json_of\<close> reads a tree from it: \<^verbatim>\<open>null\<close>,
  booleans, numbers, strings, and arrays and objects of such values, with no
  \<^verbatim>\<open>undefined\<close>, no function, no \<open>NaN\<close> and no cycle, every object holding each key
  once. \<open>shape h v\<close> is that tree: two values of the same shape are structurally equal.
\<close>

fun json_of :: "nat \<Rightarrow> heap \<Rightarrow> val \<Rightarrow> json option" where
  "json_of n h Null = Some JNull"
| "json_of n h (Bool b) = Some (JBool b)"
| "json_of n h (Num i) = Some (JNum i)"
| "json_of n h (Str s) = Some (JStr s)"
| "json_of 0 h (Ref a) = None"
| "json_of (Suc n) h (Ref a) =
     (if a < length h then
        (case h ! a of
           ArrayCell vs \<Rightarrow> map_option JArr (those (map (json_of n h) vs))
         | ObjectCell kvs \<Rightarrow>
             if distinct (map fst kvs)
             then map_option JObj
                    (those (map (\<lambda>k. map_option (Pair k) (json_of n h (own_value kvs k))) (own_keys kvs)))
             else None)
      else None)"
| "json_of n h v = None"


definition shape :: "heap \<Rightarrow> val \<Rightarrow> json option" where
  "shape h v = json_of (length h + 1) h v"

fun normalized :: "json \<Rightarrow> bool" where
  "normalized (JArr js) = list_all normalized js"
| "normalized (JObj fs) =
     (distinct (map fst fs) \<and> own_keys fs = map fst fs \<and> list_all (\<lambda>p. normalized (snd p)) fs)"
| "normalized j = True"


text \<open>
  The cells that a value reaches in a heap: the cell it refers to, and every cell that a
  value held in a reached cell refers to. These are the cells that a program holding the
  value can change through it.
\<close>

fun cell_values :: "cell \<Rightarrow> val list" where
  "cell_values (ArrayCell vs) = vs"
| "cell_values (ObjectCell kvs) = map snd kvs"

inductive_set reach :: "heap \<Rightarrow> val \<Rightarrow> nat set" for h :: heap and v :: val where
  root: "v = Ref a \<Longrightarrow> a \<in> reach h v"
| step: "a \<in> reach h v \<Longrightarrow> a < length h \<Longrightarrow> Ref b \<in> set (cell_values (h ! a)) \<Longrightarrow> b \<in> reach h v"

text \<open>
  No value held in a cell at or above position \<open>lo\<close> refers to a cell below \<open>lo\<close> or
  outside the heap.
\<close>

definition closed_from :: "nat \<Rightarrow> heap \<Rightarrow> bool" where
  "closed_from lo h \<longleftrightarrow>
     (\<forall>a b. lo \<le> a \<and> a < length h \<and> Ref b \<in> set (cell_values (h ! a)) \<longrightarrow> lo \<le> b \<and> b < length h)"

text \<open>
  An app without a target (\<^verbatim>\<open>goo()\<close> in the tests): the update listener returns at once.
  \<open>no_call\<close> stands for a program that passes no function to \<^verbatim>\<open>setState\<close>.
\<close>

definition headless :: renderer where
  "headless a v = (None, a)"

definition no_call :: caller where
  "no_call f a x = (Inl Thrown, a)"

subsection \<open>The history layer\<close>

text \<open>
  Modelled from the spec: the history module (\<^verbatim>\<open>src/modules/state.handler.history\<close>) and
  the dispatch it wraps are not among the sources, only their tests are. The record is
  the ``bounded double-ended stack pair \<open>{past, future}\<close>'' of the specification, together
  with the current state; \<open>past\<close> holds the oldest entry first, \<open>future\<close> the entry to redo
  first. The type of the states is left open.
\<close>

record 'st history =
  past :: "'st list"
  current_state :: 'st
  future :: "'st list"

text \<open>
  Modelled from the spec: the capacity of \<open>past\<close>, which is missing with the module:
  ``\<open>past\<close> capacity is fixed (default 20); exceeding it evicts the oldest entry (FIFO)''.
\<close>

definition evict :: "nat \<Rightarrow> 'st list \<Rightarrow> 'st list" where
  "evict capacity entries = (if capacity < length entries then tl entries else entries)"

text \<open>
  Modelled from the spec: the effect of a dispatch that is neither \<^verbatim>\<open>UNDO\<close>, \<^verbatim>\<open>REDO\<close> nor
  the reset and is not silent, which is missing with the module (\<^verbatim>\<open>setState\<close> is such a
  dispatch, of the override type): ``before committing the new state, push the
  pre-transition state onto \<open>past\<close> (evicting oldest if over capacity) and clear \<open>future\<close>''.
\<close>

definition history_commit :: "nat \<Rightarrow> 'st \<Rightarrow> 'st history \<Rightarrow> 'st history" where
  "history_commit capacity newState h =
     \<lparr>past = evict capacity (past h @ [current_state h]), current_state = newState, future = []\<rparr>"

text \<open>
  Modelled from the spec: \<^verbatim>\<open>UNDO\<close>, which is missing with the module: ``if \<open>past\<close> is empty,
  no-op. Otherwise: pop the most recent entry from \<open>past\<close>, push the current state onto
  \<open>future\<close>, set current state to the popped entry''.
\<close>

definition history_undo :: "'st history \<Rightarrow> 'st history" where
  "history_undo h =
     (if past h = [] then h
      else \<lparr>past = butlast (past h), current_state = last (past h), future = current_state h # future h\<rparr>)"

text \<open>
  Modelled from the spec: \<^verbatim>\<open>REDO\<close>, which is missing with the module: ``symmetric, using
  \<open>future\<close>/\<open>past\<close>''.
\<close>

definition history_redo :: "'st history \<Rightarrow> 'st history" where
  "history_redo h =
     (case future h of
        [] \<Rightarrow> h
      | next_state # rest \<Rightarrow> \<lparr>past = past h @ [current_state h], current_state = next_state, future = rest\<rparr>)"


section \<open>Part II: lemmas and theorems\<close>

subsection \<open>\<^verbatim>\<open>indexOf\<close> and the inner loop\<close>

lemma indexOf_from_bounds:
  "x \<in> set xs \<Longrightarrow> k \<le> indexOf_from k xs x \<and> indexOf_from k xs x < k + int (length xs)
     \<and> xs ! nat (indexOf_from k xs x - k) = x"
proof (induction xs arbitrary: k)
  case Nil
  then show ?case by simp
next
  case (Cons y ys)
  show ?case
  proof (cases "y = x")
    case True
    then show ?thesis by simp
  next
    case False
    with Cons.prems have "x \<in> set ys" by simp
    from Cons.IH[OF this, of "k + 1"]
    have a: "k + 1 \<le> indexOf_from (k + 1) ys x"
      and b: "indexOf_from (k + 1) ys x < k + 1 + int (length ys)"
      and c: "ys ! nat (indexOf_from (k + 1) ys x - (k + 1)) = x"
      by auto
    from a have "nat (indexOf_from (k + 1) ys x - k) = Suc (nat (indexOf_from (k + 1) ys x - (k + 1)))"
      by arith
    with a b c False show ?thesis by simp
  qed
qed

lemma indexOf_from_first:
  "indexOf_from k xs x = k + int j \<Longrightarrow> i < j \<Longrightarrow> i < length xs \<Longrightarrow> xs ! i \<noteq> x"
proof (induction xs arbitrary: k i j)
  case Nil
  then show ?case by simp
next
  case (Cons y ys)
  show ?case
  proof (cases "y = x")
    case True
    with Cons.prems show ?thesis by simp
  next
    case False
    show ?thesis
    proof (cases i)
      case 0
      with False show ?thesis by simp
    next
      case (Suc i')
      with Cons.prems obtain j' where j: "j = Suc j'" by (cases j) auto
      from Cons.prems False j have "indexOf_from (k + 1) ys x = (k + 1) + int j'" by simp
      from Cons.IH[OF this, of i'] Cons.prems Suc j show ?thesis by simp
    qed
  qed
qed

lemma indexOf_from_absent: "x \<notin> set xs \<Longrightarrow> indexOf_from k xs x = -1"
  by (induction xs arbitrary: k) auto

lemma indexOf_absent: "x \<notin> set xs \<Longrightarrow> indexOf xs x = -1"
  by (simp add: indexOf_def indexOf_from_absent)

lemma indexOf_present:
  assumes "x \<in> set xs"
  shows "0 \<le> indexOf xs x" and "indexOf xs x < int (length xs)" and "xs ! nat (indexOf xs x) = x"
  using indexOf_from_bounds[OF assms, of 0] by (simp_all add: indexOf_def)

lemma indexOf_distinct:
  assumes "distinct xs" and "j < length xs"
  shows "indexOf xs (xs ! j) = int j"
proof -
  have mem: "xs ! j \<in> set xs" using assms(2) by simp
  from indexOf_present[OF mem]
  have b: "nat (indexOf xs (xs ! j)) < length xs" and e: "xs ! nat (indexOf xs (xs ! j)) = xs ! j"
    and nn: "0 \<le> indexOf xs (xs ! j)"
    by auto
  from assms b e have "nat (indexOf xs (xs ! j)) = j"
    by (simp add: nth_eq_iff_index_eq)
  with nn show ?thesis by simp
qed

lemma chain_scan_props:
  assumes "currentLength = nat inc" and "1 \<le> inc"
    and "r = chain_scan original successor i startInc maxInc inc currentLength"
  shows "inc \<le> int r \<and> int r \<le> max inc maxInc
       \<and> (\<forall>k. inc \<le> k \<and> k < int r
              \<longrightarrow> js_nth successor (int i + k) = js_nth original (startInc + k))
       \<and> (int r < maxInc
              \<longrightarrow> js_nth successor (int i + int r) \<noteq> js_nth original (startInc + int r))"
  using assms
proof (induction original successor i startInc maxInc inc currentLength rule: chain_scan.induct)
  case (1 original successor i startInc maxInc inc currentLength)
  note unf = chain_scan.simps[of original successor i startInc maxInc inc currentLength]
  show ?case
  proof (cases "inc < maxInc")
    case False
    with "1.prems" unf have "int r = inc" by simp
    with False show ?thesis by auto
  next
    case True
    show ?thesis
    proof (cases "js_nth successor (int i + inc) \<noteq> js_nth original (startInc + inc)")
      case True
      with \<open>inc < maxInc\<close> "1.prems" unf have "int r = inc" by simp
      with True \<open>inc < maxInc\<close> show ?thesis by auto
    next
      case False
      have step: "currentLength + 1 = nat (inc + 1)" "1 \<le> inc + 1"
        using "1.prems" by auto
      have r: "r = chain_scan original successor i startInc maxInc (inc + 1) (currentLength + 1)"
        using \<open>inc < maxInc\<close> False unf "1.prems"(3) by simp
      from "1.IH"[OF \<open>inc < maxInc\<close> False step r]
      have a: "inc + 1 \<le> int r" and b: "int r \<le> max (inc + 1) maxInc"
        and c: "\<And>k. inc + 1 \<le> k \<Longrightarrow> k < int r
                  \<Longrightarrow> js_nth successor (int i + k) = js_nth original (startInc + k)"
        and d: "int r < maxInc
                  \<longrightarrow> js_nth successor (int i + int r) \<noteq> js_nth original (startInc + int r)"
        by auto
      have c': "js_nth successor (int i + k) = js_nth original (startInc + k)"
        if "inc \<le> k" "k < int r" for k
      proof (cases "k = inc")
        case True
        with False show ?thesis by simp
      next
        case False
        with that c[of k] show ?thesis by simp
      qed
      from a b \<open>inc < maxInc\<close> have "inc \<le> int r" "int r \<le> max inc maxInc" by auto
      with c' d show ?thesis by blast
    qed
  qed
qed

lemma common_run_nth:
  "common_run current target i j n \<longleftrightarrow>
     1 \<le> n \<and> i + n \<le> length target \<and> j + n \<le> length current
     \<and> (\<forall>k<n. target ! (i + k) = current ! (j + k))"
proof -
  have "(take n (drop i target) = take n (drop j current)) = (\<forall>k<n. target ! (i + k) = current ! (j + k))"
    if "i + n \<le> length target" "j + n \<le> length current"
  proof
    assume eq: "take n (drop i target) = take n (drop j current)"
    show "\<forall>k<n. target ! (i + k) = current ! (j + k)"
    proof (intro allI impI)
      fix k assume "k < n"
      then have "take n (drop i target) ! k = target ! (i + k)"
        and "take n (drop j current) ! k = current ! (j + k)"
        using that by simp_all
      with eq show "target ! (i + k) = current ! (j + k)" by simp
    qed
  next
    assume "\<forall>k<n. target ! (i + k) = current ! (j + k)"
    then show "take n (drop i target) = take n (drop j current)"
      using that by (intro nth_equalityI) simp_all
  qed
  then show ?thesis unfolding common_run_def by blast
qed

lemma chain_at_run:
  assumes mem: "set successor \<subseteq> set original"
    and len: "length original = length successor"
    and i: "i < length successor"
  shows "common_run original successor i (nat (indexOf original (successor ! i))) (chain_at original successor i)"
    and "i + chain_at original successor i = length successor
         \<or> nat (indexOf original (successor ! i)) + chain_at original successor i = length successor
         \<or> successor ! (i + chain_at original successor i)
            \<noteq> original ! (nat (indexOf original (successor ! i)) + chain_at original successor i)"
proof -
  define s where "s = indexOf original (successor ! i)"
  define m where "m = min (int (length successor) - s) (int (length successor) - int i)"
  define L where "L = chain_at original successor i"
  have Ldef: "L = chain_scan original successor i s m 1 1"
    by (simp add: L_def chain_at_def s_def m_def Let_def)
  have x: "successor ! i \<in> set original" using mem i by auto
  from indexOf_present[OF x] have s0: "0 \<le> s" and s1: "s < int (length original)"
    and sx: "original ! nat s = successor ! i"
    by (simp_all add: s_def)
  have m1: "1 \<le> m" using s1 len i by (simp add: m_def)
  from chain_scan_props[OF _ _ Ldef]
  have p1: "1 \<le> int L" and p2: "int L \<le> max 1 m"
    and p3: "\<forall>k. 1 \<le> k \<and> k < int L \<longrightarrow> js_nth successor (int i + k) = js_nth original (s + k)"
    and p4: "int L < m \<longrightarrow> js_nth successor (int i + int L) \<noteq> js_nth original (s + int L)"
    by simp_all
  from p2 m1 have Lm: "int L \<le> m" by simp
  then have b1: "i + L \<le> length successor" and b2: "nat s + L \<le> length original"
    using s0 len by (auto simp: m_def)
  have eqs: "successor ! (i + k) = original ! (nat s + k)" if "k < L" for k
  proof (cases k)
    case 0
    with sx show ?thesis by simp
  next
    case (Suc k')
    with that p3 have "js_nth successor (int i + int k) = js_nth original (s + int k)" by simp
    moreover have "int i + int k < int (length successor)" "s + int k < int (length original)"
      using that b1 b2 s0 by auto
    ultimately show ?thesis using s0
      by (simp add: js_nth_def nat_add_distrib)
  qed
  show "common_run original successor i (nat (indexOf original (successor ! i))) (chain_at original successor i)"
    unfolding common_run_nth using p1 b1 b2 eqs by (simp add: s_def L_def)
  show "i + chain_at original successor i = length successor
         \<or> nat (indexOf original (successor ! i)) + chain_at original successor i = length successor
         \<or> successor ! (i + chain_at original successor i)
            \<noteq> original ! (nat (indexOf original (successor ! i)) + chain_at original successor i)"
  proof (cases "int L < m")
    case False
    with Lm have "int L = m" by simp
    then have "i + L = length successor \<or> nat s + L = length successor"
      using s0 by (auto simp: m_def min_def split: if_splits)
    then show ?thesis unfolding s_def L_def by blast
  next
    case True
    with p4 have ne: "js_nth successor (int i + int L) \<noteq> js_nth original (s + int L)" by simp
    from True have "int i + int L < int (length successor)" "s + int L < int (length original)"
      using len by (simp_all add: m_def)
    with ne s0 have "successor ! (i + L) \<noteq> original ! (nat s + L)"
      by (simp add: js_nth_def nat_add_distrib)
    then show ?thesis unfolding s_def L_def by blast
  qed
qed

lemma common_run_bound:
  assumes d: "distinct original"
    and mem: "set successor \<subseteq> set original"
    and len: "length original = length successor"
    and r: "common_run original successor i j n"
  shows "j = nat (indexOf original (successor ! i))" and "n \<le> chain_at original successor i"
proof -
  from r have n1: "1 \<le> n" and bi: "i + n \<le> length successor" and bj: "j + n \<le> length original"
    and eq: "\<And>k. k < n \<Longrightarrow> successor ! (i + k) = original ! (j + k)"
    by (simp_all add: common_run_nth)
  have i: "i < length successor" using n1 bi by simp
  have "successor ! i = original ! j" using eq[of 0] n1 by simp
  moreover have "j < length original" using n1 bj by simp
  ultimately have "indexOf original (successor ! i) = int j"
    using indexOf_distinct[OF d] by simp
  then show j: "j = nat (indexOf original (successor ! i))" by simp
  define L where "L = chain_at original successor i"
  from chain_at_run[OF mem len i] j
  have stop: "i + L = length successor \<or> j + L = length successor \<or> successor ! (i + L) \<noteq> original ! (j + L)"
    by (simp add: L_def)
  show "n \<le> chain_at original successor i"
  proof (rule ccontr)
    assume "\<not> n \<le> chain_at original successor i"
    then have "L < n" by (simp add: L_def)
    with eq[of L] bi bj len stop show False by auto
  qed
qed


subsection \<open>The outer loop\<close>

lemma chain_at_pos: "1 \<le> chain_at original successor i"
proof -
  have "(1::int) \<le> int (chain_at original successor i)"
    using chain_scan_props[of 1 1 "chain_at original successor i" original successor i]
    by (simp add: chain_at_def Let_def)
  then show ?thesis by simp
qed

lemma chain_inv_step:
  assumes inv: "chain_inv original successor i longest chainStart"
    and cl: "cl = chain_at original successor i"
  shows "chain_inv original successor (Suc i) (if cl > longest then cl else longest)
           (if cl > longest then i else chainStart)"
proof (cases "cl > longest")
  case True
  from inv have le: "\<forall>i'<i. chain_at original successor i' \<le> longest"
    by (simp add: chain_inv_def)
  with True cl show ?thesis
    by (auto simp: chain_inv_def less_Suc_eq)
next
  case False
  have "i \<noteq> 0"
  proof
    assume "i = 0"
    with inv have "longest = 0" by (simp add: chain_inv_def)
    with chain_at_pos[of original successor i] cl False show False by simp
  qed
  with inv False cl show ?thesis
    by (auto simp: chain_inv_def less_Suc_eq)
qed

lemma chain_loop_result:
  assumes "chain_inv original successor i longest chainStart"
    and "i \<le> length successor"
    and "i < length successor \<longrightarrow> 2 * longest < length successor"
    and "chain_loop original successor i longest chainStart = (L, c)"
  shows "chain_inv original successor (length successor) L c
       \<or> (c < length successor \<and> chain_inv original successor (Suc c) L c \<and> length successor \<le> 2 * L)"
  using assms
proof (induction original successor i longest chainStart rule: chain_loop.induct)
  case (1 original successor i longest chainStart)
  note unf = chain_loop.simps[of original successor i longest chainStart]
  show ?case
  proof (cases "i < length successor")
    case False
    with "1.prems" unf have "L = longest" "c = chainStart" "i = length successor" by simp_all
    with "1.prems"(1) show ?thesis by simp
  next
    case True
    define cl where "cl = chain_at original successor i"
    define longest' where "longest' = (if cl > longest then cl else longest)"
    define chainStart' where "chainStart' = (if cl > longest then i else chainStart)"
    have inv': "chain_inv original successor (Suc i) longest' chainStart'"
      unfolding longest'_def chainStart'_def
      by (rule chain_inv_step[OF "1.prems"(1) cl_def])
    have unf': "chain_loop original successor i longest chainStart =
        (if length successor \<le> 2 * longest' then (longest', chainStart')
         else chain_loop original successor (i + 1) longest' chainStart')"
      using unf True by (simp add: Let_def cl_def longest'_def chainStart'_def)
    show ?thesis
    proof (cases "length successor \<le> 2 * longest'")
      case True
      with unf' "1.prems"(4)
      have res: "L = longest'" "c = chainStart'"
        by simp_all
      from True "1.prems"(3) \<open>i < length successor\<close> have "cl > longest"
        by (auto simp: longest'_def split: if_splits)
      then have "chainStart' = i" by (simp add: chainStart'_def)
      with res inv' True \<open>i < length successor\<close> show ?thesis by simp
    next
      case False
      with unf' "1.prems"(4)
      have call: "chain_loop original successor (i + 1) longest' chainStart' = (L, c)"
        by simp
      have pre: "i + 1 \<le> length successor" "i + 1 < length successor \<longrightarrow> 2 * longest' < length successor"
        using \<open>i < length successor\<close> False by auto
      from inv' have inv'': "chain_inv original successor (i + 1) longest' chainStart'" by simp
      show ?thesis
        by (rule "1.IH"[OF \<open>i < length successor\<close> cl_def longest'_def chainStart'_def False inv'' pre call])
    qed
  qed
qed

lemma chain_inv_0: "chain_inv original successor 0 0 0"
  by (simp add: chain_inv_def)

lemma chain_loop_main:
  assumes "chain_loop original successor 0 0 0 = (L, c)"
  shows "chain_inv original successor (length successor) L c
       \<or> (c < length successor \<and> chain_inv original successor (Suc c) L c \<and> length successor \<le> 2 * L)"
  by (rule chain_loop_result[OF chain_inv_0 _ _ assms]) auto


lemma longestChain_unfold:
  assumes "longestChain original successor = (start, end')"
  obtains L c where "chain_loop original successor 0 0 0 = (L, c)"
    and "start = int c" and "end' = int c + int L - 1"
  using assms by (auto simp: longestChain_def split: prod.splits)

lemma chain_loop_nonempty:
  assumes "chain_loop original successor 0 0 0 = (L, c)" and "successor \<noteq> []"
  shows "c < length successor" and "chain_at original successor c = L"
    and "\<forall>i'<c. chain_at original successor i' < L"
proof -
  from chain_loop_main[OF assms(1)] assms(2)
  have "c < length successor \<and> chain_at original successor c = L
        \<and> (\<forall>i'<c. chain_at original successor i' < L)"
    by (auto simp: chain_inv_def split: if_splits)
  then show "c < length successor" and "chain_at original successor c = L"
    and "\<forall>i'<c. chain_at original successor i' < L"
    by simp_all
qed

lemma chain_loop_empty:
  assumes "chain_loop original [] 0 0 0 = (L, c)"
  shows "L = 0" and "c = 0"
  using assms by (simp_all add: chain_loop.simps)


lemma perm_facts:
  assumes "mset current = mset target"
  shows "set target \<subseteq> set current" and "length current = length target"
  using assms by (auto dest: mset_eq_setD mset_eq_length)

subsection \<open>The range returned by \<^verbatim>\<open>longestChain\<close>\<close>

text \<open>
  The returned pair is a range of positions of the second argument, and the keys it holds
  form a contiguous run of the first.
\<close>

lemma longestChain_range:
  assumes perm: "mset current = mset target"
    and res: "longestChain current target = (start, end')"
  shows "0 \<le> start \<and> start \<le> end' + 1 \<and> end' < int (length target)
       \<and> sublist (js_slice target start (end' + 1)) current
       \<and> (target \<noteq> [] \<longrightarrow> start \<le> end')"
proof -
  from res obtain L c where loop: "chain_loop current target 0 0 0 = (L, c)"
    and st: "start = int c" and en: "end' = int c + int L - 1"
    by (rule longestChain_unfold)
  show ?thesis
  proof (cases "target = []")
    case True
    with loop have "L = 0" "c = 0" by (simp_all add: chain_loop_empty)
    with st en True show ?thesis by (simp add: js_slice_def)
  next
    case False
    note mem = perm_facts(1)[OF perm] and len = perm_facts(2)[OF perm]
    from chain_loop_nonempty[OF loop False]
    have c: "c < length target" and L: "chain_at current target c = L" by simp_all
    define j where "j = nat (indexOf current (target ! c))"
    from chain_at_run(1)[OF mem len c] L
    have run: "common_run current target c j L" by (simp add: j_def)
    then have L1: "1 \<le> L" and b: "c + L \<le> length target"
      and eq: "take L (drop c target) = take L (drop j current)"
      by (simp_all add: common_run_def)
    have "js_slice target start (end' + 1) = take L (drop c target)"
      using st en b by (simp add: js_slice_def Let_def min_def)
    also have "\<dots> = take L (drop j current)" by (rule eq)
    finally have "sublist (js_slice target start (end' + 1)) current"
      by (metis sublist_drop sublist_order.order_trans sublist_take)
    with st en L1 b False show ?thesis by simp
  qed
qed

text \<open>
  Claim C4, as the code has it. The comment of utils.js says that the indices ``of the chain
  in the second argument are returned'', and \<^verbatim>\<open>_update\<close> slices
  \<^verbatim>\<open>successor.childOrder\<close> with them. For key sequences \<open>current\<close> (first argument)
  and \<open>target\<close> (second argument) that are permutations of each other, the returned
  \<open>[start, end]\<close> is an index range of \<open>target\<close>: it lies within \<open>target\<close>, it is not
  empty unless \<open>target\<close> is, and the keys at positions \<open>start\<close> through \<open>end\<close> of
  \<open>target\<close> appear, in the same order, as a contiguous run in \<open>current\<close>.
\<close>

theorem longestChain_range_in_target:
  assumes perm: "mset current = mset target"
    and res: "longestChain current target = (start, end')"
  shows "0 \<le> start \<and> start \<le> end' + 1 \<and> end' < int (length target)
       \<and> sublist (js_slice target start (end' + 1)) current
       \<and> (target \<noteq> [] \<longrightarrow> start \<le> end')"
  using longestChain_range[OF perm res] .

theorem longestChain_range_in_target_witness:
  "mset [''b'', ''c'', ''a''] = mset [''a'', ''b'', ''c'']
   \<and> longestChain [''b'', ''c'', ''a''] [''a'', ''b'', ''c''] = (1, 2)
   \<and> sublist (js_slice [''a'', ''b'', ''c''] 1 (2 + 1)) [''b'', ''c'', ''a'']"
proof -
  have p: "mset [''b'', ''c'', ''a''] = mset [''a'', ''b'', ''c'']" by simp
  have r: "longestChain [''b'', ''c'', ''a''] [''a'', ''b'', ''c''] = (1, 2)"
    by (simp add: longestChain_def chain_loop.simps chain_at_def chain_scan.simps indexOf_def js_nth_def)
  from longestChain_range_in_target[OF p r]
  have "sublist (js_slice [''a'', ''b'', ''c''] 1 (2 + 1)) [''b'', ''c'', ''a'']" by blast
  with p r show ?thesis by blast
qed

text \<open>
  The claim as the specification words it (the range indexes \<open>current\<close>) fails: for
  \<open>current = [b, c, a]\<close> and \<open>target = [a, b, c]\<close> the result is \<open>(1, 2)\<close>; positions
  1 through 2 of \<open>current\<close> hold \<open>[c, a]\<close>, which is no contiguous run of \<open>target\<close>.
\<close>

theorem longestChain_range_not_in_current:
  "mset [''b'', ''c'', ''a''] = mset [''a'', ''b'', ''c'']
   \<and> longestChain [''b'', ''c'', ''a''] [''a'', ''b'', ''c''] = (1, 2)
   \<and> js_slice [''b'', ''c'', ''a''] 1 (2 + 1) = [''c'', ''a'']
   \<and> \<not> sublist (js_slice [''b'', ''c'', ''a''] 1 (2 + 1)) [''a'', ''b'', ''c'']"
  by (simp add: longestChain_def chain_loop.simps chain_at_def chain_scan.simps indexOf_def js_nth_def js_slice_def prefix_Cons sublist_Cons_right)

subsection \<open>Maximality of the chosen run\<close>

text \<open>
  Claim C3. For key sequences with unique keys that are permutations of each other,
  \<^verbatim>\<open>longestChain\<close> returns a common contiguous run (of length \<open>end - start + 1\<close>,
  starting at position \<open>start\<close> of \<open>target\<close>), no common contiguous run is longer (so
  the exit taken once a run covers half the sequence misses nothing), and every common
  run of that same length starts at \<open>start\<close> or later: among the longest runs the first
  found, the leftmost in \<open>target\<close>, is returned.
\<close>

theorem longestChain_maximal_leftmost:
  assumes d: "distinct current"
    and perm: "mset current = mset target"
    and res: "longestChain current target = (start, end')"
  shows "(target \<noteq> [] \<longrightarrow> (\<exists>j. common_run current target (nat start) j (nat (end' - start + 1))))
       \<and> (\<forall>i j n. common_run current target i j n \<longrightarrow> int n \<le> end' - start + 1)
       \<and> (\<forall>i j. common_run current target i j (nat (end' - start + 1)) \<longrightarrow> start \<le> int i)"
proof -
  note mem = perm_facts(1)[OF perm] and len = perm_facts(2)[OF perm]
  from res obtain L c where loop: "chain_loop current target 0 0 0 = (L, c)"
    and st: "start = int c" and en: "end' = int c + int L - 1"
    by (rule longestChain_unfold)
  have Leq: "nat (end' - start + 1) = L" "end' - start + 1 = int L" using st en by simp_all
  have run_le: "n \<le> chain_at current target i" if "common_run current target i j n" for i j n
    using common_run_bound(2)[OF d mem len that] .
  have part1: "target \<noteq> [] \<longrightarrow> (\<exists>j. common_run current target c j L)"
  proof
    assume ne: "target \<noteq> []"
    from chain_loop_nonempty[OF loop ne]
    have c: "c < length target" and L: "chain_at current target c = L" by simp_all
    from chain_at_run(1)[OF mem len c] L show "\<exists>j. common_run current target c j L" by auto
  qed
  have part2: "n \<le> L" if r: "common_run current target i j n" for i j n
  proof -
    from r have n1: "1 \<le> n" and bi: "i + n \<le> length target" and bj: "j + n \<le> length current"
      and eq: "\<And>k. k < n \<Longrightarrow> target ! (i + k) = current ! (j + k)"
      by (simp_all add: common_run_nth)
    then have ne: "target \<noteq> []" by auto
    from chain_loop_nonempty[OF loop ne]
    have c: "c < length target" and L: "chain_at current target c = L" by simp_all
    from chain_loop_main[OF loop]
    show ?thesis
    proof
      assume "chain_inv current target (length target) L c"
      then have "chain_at current target i \<le> L" using n1 bi by (simp add: chain_inv_def)
      with run_le[OF r] show ?thesis by simp
    next
      assume exit: "c < length target \<and> chain_inv current target (Suc c) L c \<and> length target \<le> 2 * L"
      show ?thesis
      proof (cases "i \<le> c")
        case True
        with exit have "chain_at current target i \<le> L" by (simp add: chain_inv_def)
        with run_le[OF r] show ?thesis by simp
      next
        case False
        then have ic: "c < i" by simp
        define sc where "sc = nat (indexOf current (target ! c))"
        from chain_at_run[OF mem len c] L
        have rc: "common_run current target c sc L"
          and stop: "c + L = length target \<or> sc + L = length target
                     \<or> target ! (c + L) \<noteq> current ! (sc + L)"
          by (simp_all add: sc_def)
        from rc have cb: "c + L \<le> length target" and sb: "sc + L \<le> length current"
          and ceq: "\<And>k. k < L \<Longrightarrow> target ! (c + k) = current ! (sc + k)"
          by (simp_all add: common_run_nth)
        show ?thesis
        proof (cases "i < c + L")
          case False
          with bi exit show ?thesis by simp
        next
          case True
          show ?thesis
          proof (rule ccontr)
            assume "\<not> n \<le> L"
            then have nL: "L < n" by simp
            have "target ! i = current ! (sc + (i - c))"
              using ceq[of "i - c"] True ic by simp
            moreover have "target ! i = current ! j" using eq[of 0] n1 by simp
            moreover have "sc + (i - c) < length current" "j < length current"
              using True ic sb bj n1 by simp_all
            ultimately have j: "j = sc + (i - c)"
              using d by (simp add: nth_eq_iff_index_eq)
            have k: "c + L - i < n" using ic nL by simp
            from eq[OF k] j have "target ! (c + L) = current ! (sc + L)"
              using True ic by simp
            moreover have "c + L < length target" using bi k True by simp
            moreover have "sc + L < length target" using bj k j True ic len by simp
            ultimately show False using stop by simp
          qed
        qed
      qed
    qed
  qed
  have part3: "c \<le> i" if r: "common_run current target i j L" for i j
  proof (rule ccontr)
    assume "\<not> c \<le> i"
    then have "i < c" by simp
    from r have "target \<noteq> []" by (auto simp: common_run_def)
    from chain_loop_nonempty(3)[OF loop this] \<open>i < c\<close>
    have "chain_at current target i < L" by simp
    with run_le[OF r] show False by simp
  qed
  show ?thesis
    unfolding Leq using part1 part2 part3 st by auto
qed


theorem longestChain_maximal_leftmost_witness:
  "distinct [''b'', ''c'', ''a'']
   \<and> mset [''b'', ''c'', ''a''] = mset [''a'', ''b'', ''c'']
   \<and> longestChain [''b'', ''c'', ''a''] [''a'', ''b'', ''c''] = (1, 2)
   \<and> common_run [''b'', ''c'', ''a''] [''a'', ''b'', ''c''] 1 0 2
   \<and> (\<exists>j. common_run [''b'', ''c'', ''a''] [''a'', ''b'', ''c''] (nat 1) j (nat (2 - 1 + 1)))
   \<and> int 2 \<le> 2 - 1 + 1
   \<and> (1::int) \<le> int 1"
proof -
  have d: "distinct [''b'', ''c'', ''a'']" by simp
  have p: "mset [''b'', ''c'', ''a''] = mset [''a'', ''b'', ''c'']" by simp
  have r: "longestChain [''b'', ''c'', ''a''] [''a'', ''b'', ''c''] = (1, 2)"
    by (simp add: longestChain_def chain_loop.simps chain_at_def chain_scan.simps indexOf_def js_nth_def)
  have ne: "[''a'', ''b'', ''c''] \<noteq> []" by simp
  have run: "common_run [''b'', ''c'', ''a''] [''a'', ''b'', ''c''] 1 0 2"
    by (simp add: common_run_def)
  have run': "common_run [''b'', ''c'', ''a''] [''a'', ''b'', ''c''] 1 0 (nat (2 - 1 + 1))"
    using run by simp
  note t = longestChain_maximal_leftmost[OF d p r]
  from t ne have a: "\<exists>j. common_run [''b'', ''c'', ''a''] [''a'', ''b'', ''c''] (nat 1) j (nat (2 - 1 + 1))"
    by blast
  from t run have b: "int 2 \<le> 2 - 1 + 1" by blast
  from t run' have c: "(1::int) \<le> int 1" by blast
  from d p r run a b c show ?thesis by blast
qed

subsection \<open>The two boundary moves\<close>

lemma removeAll_filter_notin:
  "removeAll p (filter (\<lambda>x. x \<notin> set ps) xs) = filter (\<lambda>x. x \<notin> set (p # ps)) xs"
  by (induction xs) auto

lemma filter_notin_removeAll:
  "filter (\<lambda>x. x \<notin> set ss) (removeAll s xs) = filter (\<lambda>x. x \<notin> set (s # ss)) xs"
  by (induction xs) auto

lemma fold_insertBefore_first:
  "distinct ps \<Longrightarrow> fold insertBefore_first (rev ps) xs = ps @ filter (\<lambda>x. x \<notin> set ps) xs"
proof (induction ps)
  case Nil
  then show ?case by simp
next
  case (Cons p ps)
  then have "fold insertBefore_first (rev (p # ps)) xs
             = insertBefore_first p (ps @ filter (\<lambda>x. x \<notin> set ps) xs)"
    by simp
  also have "\<dots> = p # removeAll p ps @ removeAll p (filter (\<lambda>x. x \<notin> set ps) xs)"
    by (simp add: insertBefore_first_def)
  also have "removeAll p ps = ps" using Cons.prems by simp
  finally show ?case by (simp only: removeAll_filter_notin append_Cons)
qed

lemma fold_appendChild:
  "distinct ss \<Longrightarrow> fold appendChild ss xs = filter (\<lambda>x. x \<notin> set ss) xs @ ss"
proof (induction ss arbitrary: xs)
  case Nil
  then show ?case by simp
next
  case (Cons s ss)
  have "fold appendChild (s # ss) xs = fold appendChild ss (removeAll s xs @ [s])"
    by (simp add: appendChild_def)
  also have "\<dots> = filter (\<lambda>x. x \<notin> set ss) (removeAll s xs @ [s]) @ ss"
    using Cons.prems by (intro Cons.IH) simp
  also have "\<dots> = filter (\<lambda>x. x \<notin> set ss) (removeAll s xs) @ s # ss"
    using Cons.prems by simp
  finally show ?case by (simp only: filter_notin_removeAll)
qed

lemma filter_block:
  assumes "distinct (as @ rs @ bs)"
  shows "filter (\<lambda>x. x \<in> set rs) (as @ rs @ bs) = rs"
proof -
  from assms have "filter (\<lambda>x. x \<in> set rs) as = []" "filter (\<lambda>x. x \<in> set rs) bs = []"
    by (auto simp: filter_empty_conv)
  then show ?thesis by simp
qed

lemma moves_reach_target:
  assumes d: "distinct current"
    and perm: "mset current = mset (ps @ rs @ ss)"
    and block: "current = as @ rs @ bs"
  shows "fold appendChild ss (fold insertBefore_first (rev ps) current) = ps @ rs @ ss"
proof -
  from d perm have dt: "distinct (ps @ rs @ ss)" by (metis mset_eq_imp_distinct_iff)
  then have dp: "distinct ps" and ds: "distinct ss" by simp_all
  have setc: "set current = set ps \<union> set rs \<union> set ss"
    using mset_eq_setD[OF perm] by auto
  have step: "fold appendChild ss (fold insertBefore_first (rev ps) current)
        = filter (\<lambda>x. x \<notin> set ss) ps
          @ filter (\<lambda>x. x \<notin> set ss) (filter (\<lambda>x. x \<notin> set ps) current) @ ss"
    by (simp add: fold_insertBefore_first[OF dp] fold_appendChild[OF ds])
  have f1: "filter (\<lambda>x. x \<notin> set ss) ps = ps"
    using dt by (auto simp: filter_id_conv)
  have "filter (\<lambda>x. x \<notin> set ss) (filter (\<lambda>x. x \<notin> set ps) current)
             = filter (\<lambda>x. x \<in> set rs) current"
    unfolding filter_filter using dt setc by (intro filter_cong) auto
  also have "\<dots> = rs" using d unfolding block by (rule filter_block)
  finally have f2: "filter (\<lambda>x. x \<notin> set ss) (filter (\<lambda>x. x \<notin> set ps) current) = rs" .
  show ?thesis unfolding step f1 f2 ..
qed

text \<open>
  Claim C2. Sibling keys are unique (\<^verbatim>\<open>children\<close> is an object keyed by them, and each
  key names one host node), so the live order \<open>current\<close> is a list of distinct keys. For
  such a \<open>current\<close> and a \<open>target\<close> that is a permutation of it: whenever the two share a
  matching adjacent pair the returned range is not empty (\<open>start \<le> end\<close>), and the two
  move phases of \<^verbatim>\<open>_update\<close> (the keys before the range inserted at the front in
  reverse order, then the keys after the range appended in order) turn the live order
  into \<open>target\<close>.
\<close>

theorem reorder_reaches_target:
  assumes d: "distinct current" and perm: "mset current = mset target"
  shows "((\<exists>i j. Suc i < length target \<and> Suc j < length current
            \<and> target ! i = current ! j \<and> target ! Suc i = current ! Suc j)
          \<longrightarrow> fst (longestChain current target) \<le> snd (longestChain current target))
       \<and> reorder current target = target"
proof -
  obtain start end' where res: "longestChain current target = (start, end')"
    by (cases "longestChain current target")
  from longestChain_range[OF perm res]
  have s0: "0 \<le> start" and se: "start \<le> end' + 1" and el: "end' < int (length target)"
    and sub: "sublist (js_slice target start (end' + 1)) current"
    and ne: "target \<noteq> [] \<longrightarrow> start \<le> end'"
    by simp_all
  define ps where "ps = js_slice target 0 start"
  define rs where "rs = js_slice target start (end' + 1)"
  define ss where "ss = js_slice_from target (end' + 1)"
  have ps: "ps = take (nat start) target"
    using s0 se el by (simp add: ps_def js_slice_def Let_def min_def)
  have rs: "rs = take (nat (end' + 1 - start)) (drop (nat start) target)"
    using s0 se el by (simp add: rs_def js_slice_def Let_def min_def)
  have ss: "ss = drop (nat (end' + 1)) target"
    using s0 se el by (simp add: ss_def js_slice_from_def Let_def min_def)
  have "nat (end' + 1) = nat start + nat (end' + 1 - start)" using s0 se by simp
  then have split: "target = ps @ rs @ ss"
    unfolding ps rs ss
    by (metis append_take_drop_id drop_drop add.commute)
  from sub obtain as bs where block: "current = as @ rs @ bs"
    by (auto simp: sublist_def rs_def)
  have "reorder current target = fold appendChild ss (fold insertBefore_first (rev ps) current)"
    by (simp add: reorder_def res Let_def ps_def ss_def)
  also have "\<dots> = ps @ rs @ ss"
    using moves_reach_target[OF d _ block] perm split by simp
  finally have "reorder current target = target" using split by simp
  moreover have "fst (longestChain current target) \<le> snd (longestChain current target)"
    if "\<exists>i j. Suc i < length target \<and> Suc j < length current
            \<and> target ! i = current ! j \<and> target ! Suc i = current ! Suc j"
  proof -
    from that have "target \<noteq> []" by auto
    with ne res show ?thesis by simp
  qed
  ultimately show ?thesis by blast
qed

theorem reorder_reaches_target_witness:
  "distinct [''a'', ''b'', ''c'']
   \<and> mset [''a'', ''b'', ''c''] = mset [''c'', ''a'', ''b'']
   \<and> [''c'', ''a'', ''b''] ! 1 = [''a'', ''b'', ''c''] ! 0
   \<and> [''c'', ''a'', ''b''] ! Suc 1 = [''a'', ''b'', ''c''] ! Suc 0
   \<and> fst (longestChain [''a'', ''b'', ''c''] [''c'', ''a'', ''b''])
       \<le> snd (longestChain [''a'', ''b'', ''c''] [''c'', ''a'', ''b''])
   \<and> reorder [''a'', ''b'', ''c''] [''c'', ''a'', ''b''] = [''c'', ''a'', ''b'']"
proof -
  have d: "distinct [''a'', ''b'', ''c'']" by simp
  have p: "mset [''a'', ''b'', ''c''] = mset [''c'', ''a'', ''b'']" by simp
  have e1: "[''c'', ''a'', ''b''] ! 1 = [''a'', ''b'', ''c''] ! 0" by simp
  have e2: "[''c'', ''a'', ''b''] ! Suc 1 = [''a'', ''b'', ''c''] ! Suc 0" by simp
  have adj: "\<exists>i j. Suc i < length [''c'', ''a'', ''b''] \<and> Suc j < length [''a'', ''b'', ''c'']
               \<and> [''c'', ''a'', ''b''] ! i = [''a'', ''b'', ''c''] ! j
               \<and> [''c'', ''a'', ''b''] ! Suc i = [''a'', ''b'', ''c''] ! Suc j"
    by (rule exI[of _ 1], rule exI[of _ 0]) simp
  from reorder_reaches_target[OF d p] adj
  have t: "fst (longestChain [''a'', ''b'', ''c''] [''c'', ''a'', ''b''])
             \<le> snd (longestChain [''a'', ''b'', ''c''] [''c'', ''a'', ''b''])
           \<and> reorder [''a'', ''b'', ''c''] [''c'', ''a'', ''b''] = [''c'', ''a'', ''b'']"
    by blast
  from d p e1 e2 t show ?thesis by blast
qed

subsection \<open>Updating a tree against itself\<close>

lemma set_sort_key_filter:
  "set (own_keys obj) = fst ` set obj"
  by (auto simp: own_keys_def Let_def)

lemma keys_set_property: "fst ` set (set_property k v obj) = insert k (fst ` set obj)"
  by (induction obj) auto

lemma keys_fold_assign:
  "fst ` set (fold (\<lambda>k t. case map_of source k of Some v \<Rightarrow> set_property k v t | None \<Rightarrow> t) ks target)
     = fst ` set target \<union> {k \<in> set ks. map_of source k \<noteq> None}"
proof (induction ks arbitrary: target)
  case Nil
  then show ?case by simp
next
  case (Cons k ks)
  show ?case
    by (cases "map_of source k") (auto simp: Cons.IH keys_set_property)
qed

lemma keys_object_assign:
  "fst ` set (object_assign target source) = fst ` set target \<union> fst ` set source"
proof -
  have "{k \<in> set (own_keys source). map_of source k \<noteq> None} = fst ` set source"
    by (auto simp: set_sort_key_filter map_of_eq_None_iff)
  then show ?thesis by (simp add: object_assign_def keys_fold_assign)
qed

lemma set_merged_keys:
  "set (merged_keys original successor) = fst ` set original \<union> fst ` set successor"
  by (simp add: merged_keys_def set_sort_key_filter keys_object_assign)

lemma diff_lite_loop_same:
  assumes "\<forall>k\<in>set keys. \<not> isFunction (get_property a k) \<and> \<not> isFunction (get_property b k)
             \<and> strict_eq (get_property a k) (get_property b k)"
  shows "diff_lite_loop a b keys acc = acc"
  using assms by (induction keys arbitrary: acc) (simp_all add: Let_def)

lemma get_property_own:
  assumes "k \<in> fst ` set obj"
  shows "\<exists>v. (k, v) \<in> set obj \<and> get_property obj k = v"
proof -
  from assms obtain v where "map_of obj k = Some v"
    by (metis map_of_eq_None_iff not_Some_eq)
  then show ?thesis by (auto simp: get_property_def dest: map_of_SomeD)
qed

lemma diff_lite_same:
  assumes "list_all (\<lambda>p. comparable (snd p)) attrs"
  shows "diff_lite attrs attrs = []"
proof -
  have "\<not> isFunction (get_property attrs k) \<and> strict_eq (get_property attrs k) (get_property attrs k)"
    if "k \<in> set (merged_keys attrs attrs)" for k
  proof -
    from that have "k \<in> fst ` set attrs" by (simp add: set_merged_keys)
    from get_property_own[OF this] obtain v where "(k, v) \<in> set attrs" "get_property attrs k = v"
      by blast
    with assms show ?thesis
      by (auto simp: list_all_iff comparable_def strict_eq_def)
  qed
  then show ?thesis
    unfolding diff_lite_def by (intro diff_lite_loop_same) blast
qed

lemma set_property_same: "map_of obj k = Some v \<Longrightarrow> set_property k v obj = obj"
  by (induction obj) (auto split: if_splits)

lemma child_loop_same:
  assumes "set keys \<subseteq> fst ` set children"
  shows "child_loop children (map (\<lambda>key. (key, (map_of children key, [], False))) keys) children order ops
         = (children, order, ops, False)"
  using assms
proof (induction keys)
  case Nil
  then show ?case by simp
next
  case (Cons key keys)
  then have "key \<in> fst ` set children" by simp
  then obtain c where c: "map_of children key = Some c"
    by (metis map_of_eq_None_iff not_Some_eq)
  with Cons show ?case by (simp add: set_property_same)
qed

lemma chain_scan_same:
  assumes "currentLength = nat inc" and "1 \<le> inc" and "inc \<le> int (length xs)"
  shows "chain_scan xs xs 0 0 (int (length xs)) inc currentLength = length xs"
proof -
  define r where "r = chain_scan xs xs 0 0 (int (length xs)) inc currentLength"
  from chain_scan_props[OF assms(1,2) r_def]
  have a: "int r \<le> max inc (int (length xs))"
    and b: "int r < int (length xs) \<longrightarrow> js_nth xs (int 0 + int r) \<noteq> js_nth xs (0 + int r)"
    by auto
  from b have "\<not> int r < int (length xs)" by simp
  with a assms(3) show ?thesis by (simp add: r_def)
qed

lemma longestChain_same:
  assumes "xs \<noteq> []"
  shows "longestChain xs xs = (0, int (length xs) - 1)"
proof -
  obtain x xs' where xs: "xs = x # xs'" using assms by (cases xs) auto
  have idx: "indexOf xs (xs ! 0) = 0" by (simp add: xs indexOf_def)
  have "chain_scan xs xs 0 0 (int (length xs)) 1 1 = length xs"
    by (rule chain_scan_same) (simp_all add: xs)
  then have "chain_at xs xs 0 = length xs"
    by (simp add: chain_at_def idx Let_def)
  then have "chain_loop xs xs 0 0 0 = (length xs, 0)"
    using assms by (simp add: chain_loop.simps[of xs xs 0 0 0] Let_def)
  then show ?thesis by (simp add: longestChain_def)
qed

lemma update_node_same:
  "comparable_tree T \<Longrightarrow> update_node parent parentKey (Some T) (Some T) = (Some T, [], False)"
proof (induction T arbitrary: parent parentKey)
  case (TextNode t)
  then show ?case by (simp add: update_node.simps)
next
  case (Element tag attrs children order)
  define path where "path = parent @ [parentKey]"
  from Element.prems have attrs: "list_all (\<lambda>p. comparable (snd p)) attrs"
    and kids: "list_all (\<lambda>p. comparable_tree (snd p)) children"
    by simp_all
  have d: "diff_lite attrs attrs = []" by (rule diff_lite_same[OF attrs])
  have res: "map (\<lambda>key. (key, update_node path key (map_of children key) (map_of children key)))
               (merged_keys children children)
             = map (\<lambda>key. (key, (map_of children key, [], False))) (merged_keys children children)"
  proof (rule map_cong[OF refl])
    fix key assume "key \<in> set (merged_keys children children)"
    then have "key \<in> fst ` set children" by (simp add: set_merged_keys)
    then obtain c where c: "map_of children key = Some c"
      by (metis map_of_eq_None_iff not_Some_eq)
    then have mem: "(key, c) \<in> set children" by (rule map_of_SomeD)
    with kids have "comparable_tree c" by (auto simp: list_all_iff)
    moreover have "c \<in> Basic_BNFs.snds (key, c)" by simp
    ultimately have "update_node path key (Some c) (Some c) = (Some c, [], False)"
      using Element.IH[OF mem] by blast
    with c show "(key, update_node path key (map_of children key) (map_of children key))
                 = (key, (map_of children key, [], False))"
      by simp
  qed
  have loop: "child_loop children
                (map (\<lambda>key. (key, update_node path key (map_of children key) (map_of children key)))
                   (merged_keys children children)) children order []
              = (children, order, [], False)"
    unfolding res by (rule child_loop_same) (simp add: set_merged_keys)
  show ?case
  proof (cases "order = []")
    case True
    then show ?thesis
      using d loop by (simp add: update_node.simps Let_def path_def[symmetric])
  next
    case False
    have slices: "js_slice order 0 0 = []" "js_slice_from order (int (length order) - 1 + 1) = []"
      by (simp_all add: js_slice_def js_slice_from_def)
    show ?thesis
      using d loop False slices
      by (simp add: update_node.simps Let_def path_def[symmetric] longestChain_same)
  qed
qed

text \<open>
  Claim C1, as the code has it. The diff pushes every key whose value is a function
  (``there is no reliable way to compare function equality, they are always considered to
  be different''), and \<^verbatim>\<open>NaN !== NaN\<close>. For every tree \<open>T\<close> none of whose attribute
  values, at any depth, is a function or \<open>NaN\<close>, updating \<open>T\<close> against an identical tree
  performs no host operation at all (no attribute write, no text update, no insertion,
  removal or move of a child), throws nothing and leaves the tree as it is.
\<close>

theorem update_identical_tree:
  "comparable_tree T \<Longrightarrow> update True T T = Inr (Some T, [], False)"
  by (simp add: update_def update_node_same)

theorem update_identical_tree_witness:
  "comparable_tree
     (Element ''ul'' [(''id'', Str ''list'')]
        [(''0'', TextNode ''a''), (''1'', Element ''li'' [(''value'', Num 2)] [] [])] [''0'', ''1''])
   \<and> update True
         (Element ''ul'' [(''id'', Str ''list'')]
            [(''0'', TextNode ''a''), (''1'', Element ''li'' [(''value'', Num 2)] [] [])] [''0'', ''1''])
         (Element ''ul'' [(''id'', Str ''list'')]
            [(''0'', TextNode ''a''), (''1'', Element ''li'' [(''value'', Num 2)] [] [])] [''0'', ''1''])
       = Inr (Some (Element ''ul'' [(''id'', Str ''list'')]
                [(''0'', TextNode ''a''), (''1'', Element ''li'' [(''value'', Num 2)] [] [])] [''0'', ''1'']),
              [], False)"
proof -
  have h: "comparable_tree
     (Element ''ul'' [(''id'', Str ''list'')]
        [(''0'', TextNode ''a''), (''1'', Element ''li'' [(''value'', Num 2)] [] [])] [''0'', ''1''])"
    by (simp add: comparable_def)
  from update_identical_tree[OF h] h show ?thesis by blast
qed

text \<open>
  The claim as the specification words it (any tree, function-valued attributes
  included) fails: a button with a click handler, updated against itself, has its
  \<^verbatim>\<open>onclick\<close> property written again.
\<close>

theorem update_identical_tree_writes_function:
  "update True (Element ''button'' [(''onclick'', Function 0)] [] [])
     (Element ''button'' [(''onclick'', Function 0)] [] [])
   = Inr (Some (Element ''button'' [(''onclick'', Function 0)] [] []),
          [SetProperty [''root''] ''onclick'' (Function 0)], False)"
  by (simp add: update_def update_node.simps diff_lite_def merged_keys_def own_keys_def
      object_assign_def is_array_index_def is_digit_def get_property_def strict_eq_def Let_def)

subsection \<open>The two copies of the diff\<close>

text \<open>
  Claim C9 says that the diff of src/utils.js and the diff bundled in dist/lite.js return
  the same array. They do not: for a handler replaced by another handler the bundled copy
  lists the key twice, because it lacks the \<^verbatim>\<open>continue\<close> of the function case.
\<close>

theorem diff_lite_repeats_key:
  "diff [(''onclick'', Function 0)] [(''onclick'', Function 1)] = [''onclick'']
   \<and> diff_lite [(''onclick'', Function 0)] [(''onclick'', Function 1)] = [''onclick'', ''onclick'']"
  by (simp add: diff_def diff_lite_def merged_keys_def own_keys_def
      object_assign_def is_array_index_def is_digit_def get_property_def strict_eq_def Let_def)

subsection \<open>Sibling keys in \<^verbatim>\<open>build\<close>\<close>

lemma has_member_iff:
  "has_member obj k \<longleftrightarrow> k \<in> fst ` set obj \<or> k \<in> set object_prototype"
  by (simp add: has_member_def map_of_eq_None_iff)

lemma set_property_new:
  "k \<notin> fst ` set obj \<Longrightarrow> set_property k v obj = obj @ [(k, v)]"
  by (induction obj) auto

text \<open>
  The loop over the children stops at the first key that \<^verbatim>\<open>children[key]\<close> finds, and
  the error carries that key; the children after it are not looked at.
\<close>

lemma build_children_first_refused:
  assumes "resolved_keys sh str ancestry cs i = Some ks"
    and "first_refused (map fst children) ks = Some k"
  shows "build_children sh str ancestry (cs @ others) i children childOrder
         = Inl (DuplicateChildKey ancestry k)"
  using assms
proof (induction cs arbitrary: i children childOrder ks)
  case Nil
  then show ?case by simp
next
  case (Cons c cs)
  from Cons.prems(1) obtain child key ks' where b: "build sh str c ancestry = Inr child"
    and ck: "child_key str ancestry i child = Inr key"
    and r: "resolved_keys sh str ancestry cs (i + 1) = Some ks'"
    and ks: "ks = key # ks'"
    by (auto split: sum.splits)
  show ?case
  proof (cases "has_member children key")
    case True
    with Cons.prems(2) ks have "k = key" by (simp add: has_member_iff)
    with True b ck show ?thesis by (simp add: build_children.simps)
  next
    case False
    then have new: "key \<notin> fst ` set children" by (simp add: has_member_iff)
    have step: "build_children sh str ancestry ((c # cs) @ others) i children childOrder
                = build_children sh str ancestry (cs @ others) (i + 1)
                    (set_property key child children) (childOrder @ [key])"
      using b ck False by (simp add: build_children.simps)
    from Cons.prems(2) ks False
    have "first_refused (map fst (set_property key child children)) ks' = Some k"
      by (simp add: has_member_iff set_property_new[OF new])
    from Cons.IH[OF r this] step show ?thesis by simp
  qed
qed

lemma first_refused_exists:
  assumes "\<not> distinct ks \<or> (\<exists>k\<in>set ks. k \<in> set seen \<or> k \<in> set object_prototype)"
  shows "\<exists>k. first_refused seen ks = Some k"
  using assms
proof (induction ks arbitrary: seen)
  case Nil
  then show ?case by simp
next
  case (Cons key ks)
  show ?case
  proof (cases "key \<in> set seen \<or> key \<in> set object_prototype")
    case True
    then show ?thesis by simp
  next
    case False
    with Cons.prems
    have "\<not> distinct ks \<or> (\<exists>k\<in>set ks. k \<in> set (seen @ [key]) \<or> k \<in> set object_prototype)"
      by auto
    from Cons.IH[OF this] False show ?thesis by simp
  qed
qed

lemma first_refused_position:
  assumes "first_refused seen ks = Some k"
  shows "\<exists>m<length ks. ks ! m = k
           \<and> (k \<in> set seen \<or> k \<in> set (take m ks) \<or> k \<in> set object_prototype)
           \<and> (\<forall>m'<m. ks ! m' \<notin> set seen \<and> ks ! m' \<notin> set (take m' ks)
                       \<and> ks ! m' \<notin> set object_prototype)"
  using assms
proof (induction ks arbitrary: seen)
  case Nil
  then show ?case by simp
next
  case (Cons key ks)
  show ?case
  proof (cases "key \<in> set seen \<or> key \<in> set object_prototype")
    case True
    with Cons.prems have "k = key" by simp
    with True have "(key # ks) ! 0 = k
           \<and> (k \<in> set seen \<or> k \<in> set (take 0 (key # ks)) \<or> k \<in> set object_prototype)
           \<and> (\<forall>m'<0. (key # ks) ! m' \<notin> set seen \<and> (key # ks) ! m' \<notin> set (take m' (key # ks))
                       \<and> (key # ks) ! m' \<notin> set object_prototype)"
      by auto
    then show ?thesis by (intro exI[of _ 0]) simp
  next
    case False
    with Cons.prems have "first_refused (seen @ [key]) ks = Some k" by simp
    from Cons.IH[OF this] obtain m where m: "m < length ks" and km: "ks ! m = k"
      and why: "k \<in> set (seen @ [key]) \<or> k \<in> set (take m ks) \<or> k \<in> set object_prototype"
      and before: "\<forall>m'<m. ks ! m' \<notin> set (seen @ [key]) \<and> ks ! m' \<notin> set (take m' ks)
                     \<and> ks ! m' \<notin> set object_prototype"
      by blast
    have "(key # ks) ! m' \<notin> set seen \<and> (key # ks) ! m' \<notin> set (take m' (key # ks))
            \<and> (key # ks) ! m' \<notin> set object_prototype" if "m' < Suc m" for m'
    proof (cases m')
      case 0
      with False show ?thesis by simp
    next
      case (Suc m'')
      with that before show ?thesis by auto
    qed
    moreover from why have "k \<in> set seen \<or> k \<in> set (take (Suc m) (key # ks)) \<or> k \<in> set object_prototype"
      by auto
    ultimately show ?thesis using m km by (intro exI[of _ "Suc m"]) simp
  qed
qed

text \<open>
  What \<^verbatim>\<open>build\<close> does with the keys of siblings, for every shorthand parser and every
  printing of numbers. Let the first \<open>n\<close> children of an element build and resolve to the
  keys \<open>ks\<close>. If two of them are equal, \<^verbatim>\<open>build\<close> throws the error
  \<^verbatim>\<open>duplicate child key\<close>, and the key it names is the first key of \<open>ks\<close> that equals an
  earlier one or is the name of a member of \<^verbatim>\<open>Object.prototype\<close>; when no key is such a
  name, it is the first key that repeats an earlier one.
\<close>

lemma build_names_first_refused:
  assumes "props \<noteq> BadProps" and "kids \<noteq> BadKids"
    and "sh tagType (attributes_of props) = Some (tagName, attributes)"
    and "resolved_keys sh str (ancestry @ '' -> '' @ tagType) (take n (childList_of kids)) 0 = Some ks"
    and "\<not> distinct ks"
  shows "\<exists>m<length ks.
           build sh str (EArr (TagString tagType) props kids) ancestry
             = Inl (DuplicateChildKey (ancestry @ '' -> '' @ tagType) (ks ! m))
           \<and> (ks ! m \<in> set (take m ks) \<or> ks ! m \<in> set object_prototype)
           \<and> (\<forall>m'<m. ks ! m' \<notin> set (take m' ks) \<and> ks ! m' \<notin> set object_prototype)"
proof -
  define anc where "anc = ancestry @ '' -> '' @ tagType"
  define cs where "cs = childList_of kids"
  have unf: "build sh str (EArr (TagString tagType) props kids) ancestry =
        (case build_children sh str anc cs 0 [] [] of
           Inl e \<Rightarrow> Inl e
         | Inr (children, childOrder) \<Rightarrow> Inr (Element tagName attributes children childOrder))"
    using assms(1-3) by (simp add: build.simps anc_def cs_def)
  from assms(4) have r: "resolved_keys sh str anc (take n cs) 0 = Some ks"
    by (simp add: anc_def cs_def)
  from first_refused_exists[of ks "[]"] assms(5) obtain k where k: "first_refused [] ks = Some k"
    by blast
  from build_children_first_refused[OF r, of "[]" k "drop n cs" "[]"] k
  have "build_children sh str anc cs 0 [] [] = Inl (DuplicateChildKey anc k)" by simp
  then have b: "build sh str (EArr (TagString tagType) props kids) ancestry
                = Inl (DuplicateChildKey anc k)"
    unfolding unf by simp
  from first_refused_position[OF k] obtain m where "m < length ks" "ks ! m = k"
    "k \<in> set (take m ks) \<or> k \<in> set object_prototype"
    "\<forall>m'<m. ks ! m' \<notin> set (take m' ks) \<and> ks ! m' \<notin> set object_prototype"
    by auto
  with b show ?thesis unfolding anc_def by blast
qed

text \<open>
  When \<^verbatim>\<open>build\<close> returns, the element lists one key for every child, the keys are
  pairwise different and are exactly the keys that the children resolved to, in their
  order: none is dropped and none is renamed.
\<close>

lemma build_children_result:
  assumes "build_children sh str ancestry cs i children childOrder = Inr (children', childOrder')"
    and "map fst children = childOrder" and "distinct childOrder"
    and "set childOrder \<inter> set object_prototype = {}"
  shows "\<exists>ks. resolved_keys sh str ancestry cs i = Some ks \<and> childOrder' = childOrder @ ks
           \<and> map fst children' = childOrder' \<and> distinct childOrder'
           \<and> set childOrder' \<inter> set object_prototype = {}"
  using assms
proof (induction cs arbitrary: i children childOrder)
  case Nil
  then show ?case by (simp add: build_children.simps)
next
  case (Cons c cs)
  from Cons.prems(1) obtain child key where b: "build sh str c ancestry = Inr child"
    and k: "child_key str ancestry i child = Inr key"
    and nm: "\<not> has_member children key"
    and rest: "build_children sh str ancestry cs (i + 1) (set_property key child children)
                 (childOrder @ [key]) = Inr (children', childOrder')"
    by (auto simp: build_children.simps split: sum.splits if_splits)
  from nm have new: "key \<notin> fst ` set children" and np: "key \<notin> set object_prototype"
    by (simp_all add: has_member_iff)
  from new Cons.prems(2) have "key \<notin> set childOrder" by auto
  with Cons.prems new np
  have pre: "map fst (set_property key child children) = childOrder @ [key]"
    "distinct (childOrder @ [key])" "set (childOrder @ [key]) \<inter> set object_prototype = {}"
    by (auto simp: set_property_new)
  from Cons.IH[OF rest pre] obtain ks where
    "resolved_keys sh str ancestry cs (i + 1) = Some ks" "childOrder' = (childOrder @ [key]) @ ks"
    "map fst children' = childOrder'" "distinct childOrder'"
    "set childOrder' \<inter> set object_prototype = {}"
    by blast
  with b k show ?case by simp
qed

lemma resolved_keys_length:
  "resolved_keys sh str ancestry cs i = Some ks \<Longrightarrow> length ks = length cs"
  by (induction cs arbitrary: i ks) (auto split: sum.splits)

lemma build_keeps_keys:
  assumes "build sh str (EArr (TagString tagType) props kids) ancestry
           = Inr (Element tagName attributes children childOrder)"
  shows "resolved_keys sh str (ancestry @ '' -> '' @ tagType) (childList_of kids) 0 = Some childOrder
         \<and> map fst children = childOrder \<and> distinct childOrder
         \<and> length childOrder = length (childList_of kids)"
proof -
  from assms have bc: "build_children sh str (ancestry @ '' -> '' @ tagType) (childList_of kids) 0 [] []
                       = Inr (children, childOrder)"
    by (auto simp: build.simps split: if_splits option.splits sum.splits)
  from build_children_result[OF bc] obtain ks where
    rk: "resolved_keys sh str (ancestry @ '' -> '' @ tagType) (childList_of kids) 0 = Some ks"
    and "childOrder = ks" "map fst children = childOrder" "distinct childOrder"
    by auto
  with resolved_keys_length[OF rk] show ?thesis by simp
qed

text \<open>
  Claim C7 says that the error of \<^verbatim>\<open>build\<close> for two children with the same key
  identifies the offending key. It does not when a sibling before them has a key that
  names a member of \<^verbatim>\<open>Object.prototype\<close>: the test \<^verbatim>\<open>!children[key]\<close> on the plain
  object \<^verbatim>\<open>children\<close> finds the inherited member. For
  \<^verbatim>\<open>['ul', {}, [['li', {key: 'constructor'}], ['li', {key: 'a'}], ['li', {key: 'a'}]]]\<close>
  the children resolve to the keys \<^verbatim>\<open>constructor\<close>, \<^verbatim>\<open>a\<close>, \<^verbatim>\<open>a\<close>, and \<^verbatim>\<open>build\<close> throws
  \<^verbatim>\<open>duplicate child key\<close> naming \<^verbatim>\<open>constructor\<close>, which one child only has; without the
  first child it names \<^verbatim>\<open>a\<close>.
\<close>

theorem build_blames_prototype_key:
  "resolved_keys plain_tag str ''root -> ul''
       [EArr (TagString ''li'') (Props [(''key'', Str ''constructor'')]) NoKids,
        EArr (TagString ''li'') (Props [(''key'', Str ''a'')]) NoKids,
        EArr (TagString ''li'') (Props [(''key'', Str ''a'')]) NoKids] 0
     = Some [''constructor'', ''a'', ''a'']
   \<and> build plain_tag str
       (EArr (TagString ''ul'') (Props [])
          (Kids [EArr (TagString ''li'') (Props [(''key'', Str ''constructor'')]) NoKids,
                 EArr (TagString ''li'') (Props [(''key'', Str ''a'')]) NoKids,
                 EArr (TagString ''li'') (Props [(''key'', Str ''a'')]) NoKids])) ''root''
     = Inl (DuplicateChildKey ''root -> ul'' ''constructor'')
   \<and> build plain_tag str
       (EArr (TagString ''ul'') (Props [])
          (Kids [EArr (TagString ''li'') (Props [(''key'', Str ''a'')]) NoKids,
                 EArr (TagString ''li'') (Props [(''key'', Str ''a'')]) NoKids])) ''root''
     = Inl (DuplicateChildKey ''root -> ul'' ''a'')"
  by (simp add: build.simps build_children.simps plain_tag_def checked_key_def valid_key_def
      is_word_char_def has_member_def object_prototype_def)
subsection \<open>Reading JSON-shaped values from the heap\<close>

lemma those_map_iff:
  "those (map f xs) = Some ys \<longleftrightarrow> list_all2 (\<lambda>x y. f x = Some y) xs ys"
proof (induction xs arbitrary: ys)
  case Nil
  then show ?case by auto
next
  case (Cons x xs)
  show ?case
  proof (cases "f x")
    case None
    then show ?thesis by (auto simp: list_all2_Cons1)
  next
    case (Some y)
    then show ?thesis
      by (cases "those (map f xs)") (auto simp: Cons.IH list_all2_Cons1 simp flip: Cons.IH)
  qed
qed

lemma sequence_map:
  "list_all2 (\<lambda>x y. g x = Inr y) xs ys \<Longrightarrow> sequence (map g xs) = Inr ys"
  by (induction xs ys rule: list_all2_induct) auto

lemma own_keys_unfold:
  "own_keys obj = sort_key digits_value (filter is_array_index (map fst obj))
                  @ filter (\<lambda>k. \<not> is_array_index k) (map fst obj)"
  by (simp add: own_keys_def Let_def)

lemma own_keys_cong: "map fst obj = map fst obj' \<Longrightarrow> own_keys obj = own_keys obj'"
  by (simp add: own_keys_unfold)

lemma own_keys_idem:
  assumes "map fst obj' = own_keys obj"
  shows "own_keys obj' = own_keys obj"
proof -
  define ks where "ks = map fst obj"
  define A where "A = sort_key digits_value (filter is_array_index ks)"
  define B where "B = filter (\<lambda>k. \<not> is_array_index k) ks"
  have ok: "own_keys obj = A @ B" by (simp add: own_keys_unfold A_def B_def ks_def)
  have fa: "filter is_array_index A = A" "filter (\<lambda>k. \<not> is_array_index k) A = []"
    by (auto simp: A_def filter_id_conv filter_empty_conv)
  have fb: "filter is_array_index B = []" "filter (\<lambda>k. \<not> is_array_index k) B = B"
    by (auto simp: B_def filter_id_conv filter_empty_conv)
  have "sorted (map digits_value A)" by (simp add: A_def)
  then have sa: "sort_key digits_value A = A" by (rule sort_key_id_if_sorted)
  have "own_keys obj' = sort_key digits_value (filter is_array_index (A @ B))
                        @ filter (\<lambda>k. \<not> is_array_index k) (A @ B)"
    using assms ok by (simp add: own_keys_unfold)
  also have "\<dots> = A @ B" by (simp add: fa fb sa)
  finally show ?thesis by (simp add: ok)
qed

lemma distinct_own_keys: "distinct (map fst obj) \<Longrightarrow> distinct (own_keys obj)"
  by (auto simp: own_keys_unfold)


lemma json_of_Ref_iff:
  "json_of (Suc n) h (Ref a) = Some j \<longleftrightarrow>
     a < length h \<and>
     ((\<exists>vs js. h ! a = ArrayCell vs \<and> j = JArr js
          \<and> list_all2 (\<lambda>v x. json_of n h v = Some x) vs js)
      \<or> (\<exists>kvs fs. h ! a = ObjectCell kvs \<and> distinct (map fst kvs) \<and> j = JObj fs
          \<and> list_all2 (\<lambda>k f. fst f = k \<and> json_of n h (own_value kvs k) = Some (snd f))
                (own_keys kvs) fs))"
proof -
  have pair: "(map_option (Pair k) x = Some f) = (fst f = k \<and> x = Some (snd f))" for k x and f :: "string \<times> json"
    by (cases x; cases f) auto
  have eq: "(\<lambda>x y. \<exists>z. json_of n h (own_value kvs x) = Some z \<and> (x, z) = y)
            = (\<lambda>k f. fst f = k \<and> json_of n h (own_value kvs k) = Some (snd f))" for kvs
    by (intro ext) auto
  show ?thesis
  proof (cases "h ! a")
    case (ArrayCell vs)
    then show ?thesis by (auto simp: those_map_iff)
  next
    case (ObjectCell kvs)
    then show ?thesis by (auto simp: those_map_iff eq)
  qed
qed

lemma json_of_scalar:
  "json_of 0 h v = Some j \<Longrightarrow> json_of n h' v = Some j"
  by (cases v) auto

lemma json_of_fuel_frame:
  assumes "json_of n h v = Some j" and "n \<le> m" and "prefix h h'"
  shows "json_of m h' v = Some j"
  using assms
proof (induction n arbitrary: m v j)
  case 0
  from "0.prems"(1) show ?case by (rule json_of_scalar)
next
  case (Suc n)
  from Suc.prems(2) obtain m' where m: "m = Suc m'" and le: "n \<le> m'" by (cases m) auto
  note IH = Suc.IH[OF _ le Suc.prems(3)]
  show ?case
  proof (cases v)
    case (Ref a)
    from Suc.prems(1) Ref have j: "json_of (Suc n) h (Ref a) = Some j" by simp
    then have a: "a < length h" unfolding json_of_Ref_iff by blast
    with Suc.prems(3) have a': "a < length h'" and same: "h' ! a = h ! a"
      by (auto simp: prefix_def nth_append)
    from j consider
      (arr) vs js where "h ! a = ArrayCell vs" "j = JArr js"
        "list_all2 (\<lambda>v x. json_of n h v = Some x) vs js"
    | (obj) kvs fs where "h ! a = ObjectCell kvs" "distinct (map fst kvs)" "j = JObj fs"
        "list_all2 (\<lambda>k f. fst f = k \<and> json_of n h (own_value kvs k) = Some (snd f)) (own_keys kvs) fs"
      unfolding json_of_Ref_iff by blast
    then show ?thesis
    proof cases
      case arr
      from arr(3) have "list_all2 (\<lambda>v x. json_of m' h' v = Some x) vs js"
        by (rule list_all2_mono) (rule IH)
      with arr a' same show ?thesis unfolding Ref m json_of_Ref_iff by auto
    next
      case obj
      from obj(4) have "list_all2 (\<lambda>k f. fst f = k \<and> json_of m' h' (own_value kvs k) = Some (snd f))
                          (own_keys kvs) fs"
        by (rule list_all2_mono) (auto intro: IH)
      with obj a' same show ?thesis unfolding Ref m json_of_Ref_iff by auto
    qed
  qed (use Suc.prems(1) in auto)
qed

lemma json_of_serialize:
  "json_of n h v = Some j \<Longrightarrow> serialize n h v = Inr (Some j)"
proof (induction n arbitrary: v j)
  case 0
  then show ?case by (cases v) auto
next
  case (Suc n)
  show ?case
  proof (cases v)
    case (Ref a)
    from Suc.prems Ref have j: "json_of (Suc n) h (Ref a) = Some j" by simp
    then have a: "a < length h" unfolding json_of_Ref_iff by blast
    from j consider
      (arr) vs js where "h ! a = ArrayCell vs" "j = JArr js"
        "list_all2 (\<lambda>v x. json_of n h v = Some x) vs js"
    | (obj) kvs fs where "h ! a = ObjectCell kvs" "distinct (map fst kvs)" "j = JObj fs"
        "list_all2 (\<lambda>k f. fst f = k \<and> json_of n h (own_value kvs k) = Some (snd f)) (own_keys kvs) fs"
      unfolding json_of_Ref_iff by blast
    then show ?thesis
    proof cases
      case arr
      from arr(3) have "list_all2 (\<lambda>v y. serialize n h v = Inr y) vs (map Some js)"
        by (induction rule: list_all2_induct) (auto intro: Suc.IH)
      then have "sequence (map (serialize n h) vs) = Inr (map Some js)" by (rule sequence_map)
      with arr a show ?thesis by (simp add: Ref comp_def)
    next
      case obj
      from obj(4) have "list_all2 (\<lambda>k y. serialize n h (own_value kvs k) = Inr y) (own_keys kvs)
                          (map (\<lambda>f. Some (snd f)) fs)"
        by (induction rule: list_all2_induct) (auto intro: Suc.IH)
      then have s: "sequence (map (\<lambda>k. serialize n h (own_value kvs k)) (own_keys kvs))
                    = Inr (map (\<lambda>f. Some (snd f)) fs)"
        by (rule sequence_map)
      from obj(4) have "concat (map2 (\<lambda>k j. case j of None \<Rightarrow> [] | Some x \<Rightarrow> [(k, x)])
                          (own_keys kvs) (map (\<lambda>f. Some (snd f)) fs)) = fs"
        by (induction rule: list_all2_induct) auto
      with obj a s show ?thesis by (simp add: Ref)
    qed
  qed (use Suc.prems in auto)
qed

lemma json_of_normalized:
  "json_of n h v = Some j \<Longrightarrow> normalized j"
proof (induction n arbitrary: v j)
  case 0
  then show ?case by (cases v) auto
next
  case (Suc n)
  show ?case
  proof (cases v)
    case (Ref a)
    from Suc.prems Ref have j: "json_of (Suc n) h (Ref a) = Some j" by simp
    from j consider
      (arr) vs js where "h ! a = ArrayCell vs" "j = JArr js"
        "list_all2 (\<lambda>v x. json_of n h v = Some x) vs js"
    | (obj) kvs fs where "h ! a = ObjectCell kvs" "distinct (map fst kvs)" "j = JObj fs"
        "list_all2 (\<lambda>k f. fst f = k \<and> json_of n h (own_value kvs k) = Some (snd f)) (own_keys kvs) fs"
      unfolding json_of_Ref_iff by blast
    then show ?thesis
    proof cases
      case arr
      from arr(3) have "list_all normalized js"
        by (induction rule: list_all2_induct) (auto intro: Suc.IH)
      with arr show ?thesis by simp
    next
      case obj
      from obj(4) have keys: "map fst fs = own_keys kvs" and vals: "list_all (\<lambda>p. normalized (snd p)) fs"
        by (induction rule: list_all2_induct) (auto intro: Suc.IH)
      from keys have "own_keys fs = map fst fs" using own_keys_idem[of fs kvs] by simp
      moreover have "distinct (map fst fs)" using keys distinct_own_keys[OF obj(2)] by simp
      ultimately show ?thesis using obj vals by simp
    qed
  qed (use Suc.prems in auto)
qed


lemma alloc_props:
  shows "alloc j h = (v, h') \<Longrightarrow>
           prefix h h' \<and> (\<forall>a. v = Ref a \<longrightarrow> length h \<le> a \<and> a < length h')
           \<and> (normalized j \<longrightarrow> (\<forall>n. length h' - length h \<le> n \<longrightarrow> json_of n h' v = Some j))"
    and "alloc_list js h = (vs, h') \<Longrightarrow>
           prefix h h'
           \<and> (list_all normalized js \<longrightarrow>
                (\<forall>n. length h' - length h \<le> n \<longrightarrow> list_all2 (\<lambda>v x. json_of n h' v = Some x) vs js))"
    and "alloc_fields fs h = (kvs, h') \<Longrightarrow>
           prefix h h' \<and> map fst kvs = map fst fs
           \<and> (list_all (\<lambda>p. normalized (snd p)) fs \<longrightarrow>
                (\<forall>n. length h' - length h \<le> n \<longrightarrow>
                     list_all2 (\<lambda>kv f. json_of n h' (snd kv) = Some (snd f)) kvs fs))"
proof (induction j h and js h and fs h arbitrary: v h' and vs h' and kvs h'
       rule: alloc_alloc_list_alloc_fields.induct)
  case (5 js h)
  obtain vs h1 where al: "alloc_list js h = (vs, h1)" by (cases "alloc_list js h")
  with "5.prems" have v: "v = Ref (length h1)" and h': "h' = h1 @ [ArrayCell vs]" by simp_all
  from "5.IH"[OF al] have p: "prefix h h1"
    and c: "list_all normalized js \<longrightarrow>
              (\<forall>n. length h1 - length h \<le> n \<longrightarrow> list_all2 (\<lambda>v x. json_of n h1 v = Some x) vs js)"
    by simp_all
  have p1: "prefix h1 h'" by (simp add: h')
  have len: "length h \<le> length h1" using p by (rule prefix_length_le)
  have "json_of n h' v = Some (JArr js)" if nz: "normalized (JArr js)" and n: "length h' - length h \<le> n" for n
  proof -
    from n len obtain m where m: "n = Suc m" and mm: "length h1 - length h \<le> m"
      by (cases n) (auto simp: h')
    from c nz mm have "list_all2 (\<lambda>v x. json_of m h1 v = Some x) vs js" by simp
    then have "list_all2 (\<lambda>v x. json_of m h' v = Some x) vs js"
      by (rule list_all2_mono) (rule json_of_fuel_frame[OF _ order_refl p1])
    then show ?thesis unfolding v m json_of_Ref_iff by (simp add: h')
  qed
  with p p1 len show ?case by (auto simp: v h' intro: prefix_order.order_trans)
next
  case (6 fs h)
  obtain kvs h1 where al: "alloc_fields fs h = (kvs, h1)" by (cases "alloc_fields fs h")
  with "6.prems" have v: "v = Ref (length h1)" and h': "h' = h1 @ [ObjectCell kvs]" by simp_all
  from "6.IH"[OF al] have p: "prefix h h1" and keys: "map fst kvs = map fst fs"
    and c: "list_all (\<lambda>p. normalized (snd p)) fs \<longrightarrow>
              (\<forall>n. length h1 - length h \<le> n \<longrightarrow>
                   list_all2 (\<lambda>kv f. json_of n h1 (snd kv) = Some (snd f)) kvs fs)"
    by simp_all
  have p1: "prefix h1 h'" by (simp add: h')
  have len: "length h \<le> length h1" using p by (rule prefix_length_le)
  have "json_of n h' v = Some (JObj fs)" if nz: "normalized (JObj fs)" and n: "length h' - length h \<le> n" for n
  proof -
    from n len obtain m where m: "n = Suc m" and mm: "length h1 - length h \<le> m"
      by (cases n) (auto simp: h')
    from nz have d: "distinct (map fst fs)" and ok: "own_keys fs = map fst fs"
      and nv: "list_all (\<lambda>p. normalized (snd p)) fs"
      by simp_all
    from c nv mm have "list_all2 (\<lambda>kv f. json_of m h1 (snd kv) = Some (snd f)) kvs fs" by simp
    then have vals: "list_all2 (\<lambda>kv f. json_of m h' (snd kv) = Some (snd f)) kvs fs"
      by (rule list_all2_mono) (rule json_of_fuel_frame[OF _ order_refl p1])
    have dk: "distinct (map fst kvs)" using d keys by simp
    have okk: "own_keys kvs = map fst fs" using own_keys_cong[OF keys] ok by simp
    have "list_all2 (\<lambda>k f. fst f = k \<and> json_of m h' (own_value kvs k) = Some (snd f)) (map fst fs) fs"
    proof (rule list_all2_all_nthI)
      show "length (map fst fs) = length fs" by simp
    next
      fix i assume "i < length (map fst fs)"
      then have i: "i < length fs" by simp
      then have ik: "i < length kvs" using keys by (metis length_map)
      have fk: "fst (kvs ! i) = fst (fs ! i)"
        using keys i ik by (metis nth_map)
      have "(fst (kvs ! i), snd (kvs ! i)) \<in> set kvs" using ik by simp
      then have "map_of kvs (fst (kvs ! i)) = Some (snd (kvs ! i))"
        using dk by (simp add: map_of_eq_Some_iff)
      then have ov: "own_value kvs (fst (fs ! i)) = snd (kvs ! i)"
        by (simp add: own_value_def fk)
      from vals i have "json_of m h' (snd (kvs ! i)) = Some (snd (fs ! i))"
        by (simp add: list_all2_conv_all_nth)
      with ov i show "fst (fs ! i) = map fst fs ! i
                      \<and> json_of m h' (own_value kvs (map fst fs ! i)) = Some (snd (fs ! i))"
        by simp
    qed
    then show ?thesis unfolding v m json_of_Ref_iff using dk okk by (simp add: h')
  qed
  with p p1 len show ?case by (auto simp: v h' intro: prefix_order.order_trans)
next
  case (8 j js h)
  obtain v1 h1 where a1: "alloc j h = (v1, h1)" by (cases "alloc j h")
  obtain vs2 h2 where a2: "alloc_list js h1 = (vs2, h2)" by (cases "alloc_list js h1")
  from "8.prems" a1 a2 have vs: "vs = v1 # vs2" and h': "h' = h2" by simp_all
  from "8.IH"(1)[OF a1] have p1: "prefix h h1"
    and c1: "normalized j \<longrightarrow> (\<forall>n. length h1 - length h \<le> n \<longrightarrow> json_of n h1 v1 = Some j)"
    by simp_all
  from "8.IH"(2)[OF a1[symmetric] a2] have p2: "prefix h1 h2"
    and c2: "list_all normalized js \<longrightarrow>
               (\<forall>n. length h2 - length h1 \<le> n \<longrightarrow> list_all2 (\<lambda>v x. json_of n h2 v = Some x) vs2 js)"
    by simp_all
  have l1: "length h \<le> length h1" and l2: "length h1 \<le> length h2"
    using p1 p2 by (auto dest: prefix_length_le)
  have "list_all2 (\<lambda>v x. json_of n h2 v = Some x) (v1 # vs2) (j # js)"
    if nz: "list_all normalized (j # js)" and n: "length h2 - length h \<le> n" for n
  proof -
    from nz c1 n l1 l2 have "json_of n h1 v1 = Some j" by simp
    then have "json_of n h2 v1 = Some j" by (rule json_of_fuel_frame[OF _ order_refl p2])
    moreover from nz c2 n l1 l2 have "list_all2 (\<lambda>v x. json_of n h2 v = Some x) vs2 js" by simp
    ultimately show ?thesis by simp
  qed
  with p1 p2 show ?case unfolding vs h' by (auto intro: prefix_order.order_trans)
next
  case (10 k j fs h)
  obtain v1 h1 where a1: "alloc j h = (v1, h1)" by (cases "alloc j h")
  obtain kvs2 h2 where a2: "alloc_fields fs h1 = (kvs2, h2)" by (cases "alloc_fields fs h1")
  from "10.prems" a1 a2 have kvs: "kvs = (k, v1) # kvs2" and h': "h' = h2" by simp_all
  from "10.IH"(1)[OF a1] have p1: "prefix h h1"
    and c1: "normalized j \<longrightarrow> (\<forall>n. length h1 - length h \<le> n \<longrightarrow> json_of n h1 v1 = Some j)"
    by simp_all
  from "10.IH"(2)[OF a1[symmetric] a2] have p2: "prefix h1 h2"
    and keys: "map fst kvs2 = map fst fs"
    and c2: "list_all (\<lambda>p. normalized (snd p)) fs \<longrightarrow>
               (\<forall>n. length h2 - length h1 \<le> n \<longrightarrow>
                    list_all2 (\<lambda>kv f. json_of n h2 (snd kv) = Some (snd f)) kvs2 fs)"
    by simp_all
  have l1: "length h \<le> length h1" and l2: "length h1 \<le> length h2"
    using p1 p2 by (auto dest: prefix_length_le)
  have "list_all2 (\<lambda>kv f. json_of n h2 (snd kv) = Some (snd f)) ((k, v1) # kvs2) ((k, j) # fs)"
    if nz: "list_all (\<lambda>p. normalized (snd p)) ((k, j) # fs)" and n: "length h2 - length h \<le> n" for n
  proof -
    from nz c1 n l1 l2 have "json_of n h1 v1 = Some j" by simp
    then have "json_of n h2 v1 = Some j" by (rule json_of_fuel_frame[OF _ order_refl p2])
    moreover from nz c2 n l1 l2
    have "list_all2 (\<lambda>kv f. json_of n h2 (snd kv) = Some (snd f)) kvs2 fs" by simp
    ultimately show ?thesis by simp
  qed
  with p1 p2 keys show ?case unfolding kvs h' by (auto intro: prefix_order.order_trans)
qed auto


subsection \<open>\<^verbatim>\<open>setState\<close> and \<^verbatim>\<open>getState\<close>\<close>

lemma shape_not_special:
  assumes "shape h v = Some j"
  shows "v \<noteq> Undefined" and "\<not> isFunction v"
  using assms by (cases v; simp add: shape_def)+

lemma shape_Ref_bound: "shape h (Ref a) = Some j \<Longrightarrow> a < length h"
  unfolding shape_def Suc_eq_plus1[symmetric] json_of_Ref_iff by blast

lemma shape_frame:
  assumes "shape h v = Some j" and "prefix h h'"
  shows "shape h' v = Some j"
proof -
  from assms(2) have "length h + 1 \<le> length h' + 1" by (simp add: prefix_length_le)
  from json_of_fuel_frame[OF _ this assms(2)] assms(1) show ?thesis by (simp add: shape_def)
qed

text \<open>The cells that \<^verbatim>\<open>JSON.parse\<close> creates refer to each other only.\<close>

lemma closed_from_snoc:
  assumes "closed_from lo h" and "lo \<le> length h"
    and "\<forall>b. Ref b \<in> set (cell_values c) \<longrightarrow> lo \<le> b \<and> b < length h"
  shows "closed_from lo (h @ [c])"
  unfolding closed_from_def
proof (intro allI impI)
  fix a b
  assume h: "lo \<le> a \<and> a < length (h @ [c]) \<and> Ref b \<in> set (cell_values ((h @ [c]) ! a))"
  show "lo \<le> b \<and> b < length (h @ [c])"
  proof (cases "a < length h")
    case True
    with h have "Ref b \<in> set (cell_values (h ! a))" by (simp add: nth_append)
    with assms(1) h True have "lo \<le> b \<and> b < length h" unfolding closed_from_def by blast
    then show ?thesis by simp
  next
    case False
    with h have "a = length h" by simp
    with h have "Ref b \<in> set (cell_values c)" by simp
    with assms(3) show ?thesis by auto
  qed
qed

lemma closed_from_extend:
  assumes "closed_from lo h1" and "closed_from (length h1) h2" and "prefix h1 h2" and "lo \<le> length h1"
  shows "closed_from lo h2"
  unfolding closed_from_def
proof (intro allI impI)
  fix a b
  assume h: "lo \<le> a \<and> a < length h2 \<and> Ref b \<in> set (cell_values (h2 ! a))"
  from assms(3) have len: "length h1 \<le> length h2" by (rule prefix_length_le)
  show "lo \<le> b \<and> b < length h2"
  proof (cases "a < length h1")
    case True
    with assms(3) have "h2 ! a = h1 ! a" by (auto simp: prefix_def nth_append)
    with h have "Ref b \<in> set (cell_values (h1 ! a))" by simp
    with assms(1) h True have "lo \<le> b \<and> b < length h1" unfolding closed_from_def by blast
    with len show ?thesis by simp
  next
    case False
    then have "length h1 \<le> a" by simp
    with assms(2) h have "length h1 \<le> b \<and> b < length h2" unfolding closed_from_def by blast
    with assms(4) show ?thesis by simp
  qed
qed

lemma alloc_fresh:
  shows "alloc j h = (v, h') \<Longrightarrow>
           (\<forall>b. v = Ref b \<longrightarrow> length h \<le> b \<and> b < length h') \<and> closed_from (length h) h'"
    and "alloc_list js h = (vs, h') \<Longrightarrow>
           (\<forall>b. Ref b \<in> set vs \<longrightarrow> length h \<le> b \<and> b < length h') \<and> closed_from (length h) h'"
    and "alloc_fields fs h = (kvs, h') \<Longrightarrow>
           (\<forall>b. Ref b \<in> set (map snd kvs) \<longrightarrow> length h \<le> b \<and> b < length h')
           \<and> closed_from (length h) h'"
proof (induction j h and js h and fs h arbitrary: v h' and vs h' and kvs h'
       rule: alloc_alloc_list_alloc_fields.induct)
  case (5 js h)
  obtain vs h1 where al: "alloc_list js h = (vs, h1)" by (cases "alloc_list js h")
  with "5.prems" have v: "v = Ref (length h1)" and h': "h' = h1 @ [ArrayCell vs]" by simp_all
  from alloc_props(2)[OF al] have len: "length h \<le> length h1" by (simp add: prefix_length_le)
  from "5.IH"[OF al] have r: "\<forall>b. Ref b \<in> set vs \<longrightarrow> length h \<le> b \<and> b < length h1"
    and c: "closed_from (length h) h1"
    by simp_all
  have "closed_from (length h) (h1 @ [ArrayCell vs])"
    by (rule closed_from_snoc[OF c len]) (use r in simp)
  with len show ?case by (simp add: v h')
next
  case (6 fs h)
  obtain kvs h1 where al: "alloc_fields fs h = (kvs, h1)" by (cases "alloc_fields fs h")
  with "6.prems" have v: "v = Ref (length h1)" and h': "h' = h1 @ [ObjectCell kvs]" by simp_all
  from alloc_props(3)[OF al] have len: "length h \<le> length h1" by (simp add: prefix_length_le)
  from "6.IH"[OF al] have r: "\<forall>b. Ref b \<in> set (map snd kvs) \<longrightarrow> length h \<le> b \<and> b < length h1"
    and c: "closed_from (length h) h1"
    by simp_all
  have "closed_from (length h) (h1 @ [ObjectCell kvs])"
    by (rule closed_from_snoc[OF c len]) (use r in simp)
  with len show ?case by (simp add: v h')
next
  case (7 h)
  then show ?case by (simp add: closed_from_def)
next
  case (8 j js h)
  obtain v1 h1 where a1: "alloc j h = (v1, h1)" by (cases "alloc j h")
  obtain vs2 h2 where a2: "alloc_list js h1 = (vs2, h2)" by (cases "alloc_list js h1")
  from "8.prems" a1 a2 have vs: "vs = v1 # vs2" and h': "h' = h2" by simp_all
  from alloc_props(1)[OF a1] have p1: "prefix h h1" by simp
  from alloc_props(2)[OF a2] have p2: "prefix h1 h2" by simp
  have l1: "length h \<le> length h1" and l2: "length h1 \<le> length h2"
    using p1 p2 by (auto dest: prefix_length_le)
  from "8.IH"(1)[OF a1] have r1: "\<forall>b. v1 = Ref b \<longrightarrow> length h \<le> b \<and> b < length h1"
    and c1: "closed_from (length h) h1"
    by simp_all
  from "8.IH"(2)[OF a1[symmetric] a2]
  have r2: "\<forall>b. Ref b \<in> set vs2 \<longrightarrow> length h1 \<le> b \<and> b < length h2"
    and c2: "closed_from (length h1) h2"
    by simp_all
  have "closed_from (length h) h2" by (rule closed_from_extend[OF c1 c2 p2 l1])
  moreover have "\<forall>b. Ref b \<in> set (v1 # vs2) \<longrightarrow> length h \<le> b \<and> b < length h2"
    using r1 r2 l1 l2 by auto
  ultimately show ?case by (simp add: vs h')
next
  case (9 h)
  then show ?case by (simp add: closed_from_def)
next
  case (10 k j fs h)
  obtain v1 h1 where a1: "alloc j h = (v1, h1)" by (cases "alloc j h")
  obtain kvs2 h2 where a2: "alloc_fields fs h1 = (kvs2, h2)" by (cases "alloc_fields fs h1")
  from "10.prems" a1 a2 have kvs: "kvs = (k, v1) # kvs2" and h': "h' = h2" by simp_all
  from alloc_props(1)[OF a1] have p1: "prefix h h1" by simp
  from alloc_props(3)[OF a2] have p2: "prefix h1 h2" by simp
  have l1: "length h \<le> length h1" and l2: "length h1 \<le> length h2"
    using p1 p2 by (auto dest: prefix_length_le)
  from "10.IH"(1)[OF a1] have r1: "\<forall>b. v1 = Ref b \<longrightarrow> length h \<le> b \<and> b < length h1"
    and c1: "closed_from (length h) h1"
    by simp_all
  from "10.IH"(2)[OF a1[symmetric] a2]
  have r2: "\<forall>b. Ref b \<in> set (map snd kvs2) \<longrightarrow> length h1 \<le> b \<and> b < length h2"
    and c2: "closed_from (length h1) h2"
    by simp_all
  have "closed_from (length h) h2" by (rule closed_from_extend[OF c1 c2 p2 l1])
  moreover have "\<forall>b. Ref b \<in> set (map snd ((k, v1) # kvs2)) \<longrightarrow> length h \<le> b \<and> b < length h2"
    using r1 r2 l1 l2 by auto
  ultimately show ?case by (simp add: kvs h')
qed (simp_all add: closed_from_def)

lemma reach_closed:
  assumes "a \<in> reach h v" and "closed_from lo h" and "\<forall>b. v = Ref b \<longrightarrow> lo \<le> b \<and> b < length h"
  shows "lo \<le> a \<and> a < length h"
  using assms(1)
proof (induction rule: reach.induct)
  case (root a)
  with assms(3) show ?case by simp
next
  case (step a b)
  with assms(2) show ?case unfolding closed_from_def by blast
qed

text \<open>The cells that a JSON-shaped value reaches exist, also in a heap that has grown.\<close>

lemma json_of_child:
  assumes "json_of n h (Ref a) = Some j" and "Ref b \<in> set (cell_values (h ! a))"
  shows "\<exists>m j'. json_of m h (Ref b) = Some j'"
proof -
  from assms(1) obtain n0 where n: "n = Suc n0" by (cases n) auto
  with assms(1) have "json_of (Suc n0) h (Ref a) = Some j" by simp
  then consider
    (arr) vs js where "h ! a = ArrayCell vs" "list_all2 (\<lambda>v x. json_of n0 h v = Some x) vs js"
  | (obj) kvs fs where "h ! a = ObjectCell kvs" "distinct (map fst kvs)"
      "list_all2 (\<lambda>k f. fst f = k \<and> json_of n0 h (own_value kvs k) = Some (snd f)) (own_keys kvs) fs"
    unfolding json_of_Ref_iff by blast
  then show ?thesis
  proof cases
    case arr
    from assms(2) arr(1) have "Ref b \<in> set vs" by simp
    with arr(2) obtain x where "json_of n0 h (Ref b) = Some x"
      by (auto simp: list_all2_conv_all_nth in_set_conv_nth)
    then show ?thesis by blast
  next
    case obj
    from assms(2) obj(1) obtain k where kv: "(k, Ref b) \<in> set kvs" by auto
    with obj(2) have "map_of kvs k = Some (Ref b)" by (simp add: map_of_eq_Some_iff)
    then have ov: "own_value kvs k = Ref b" by (simp add: own_value_def)
    from kv have "k \<in> set (own_keys kvs)" by (force simp: set_sort_key_filter)
    with obj(3) obtain f where "json_of n0 h (own_value kvs k) = Some (snd f)"
      by (auto simp: list_all2_conv_all_nth in_set_conv_nth)
    with ov show ?thesis by auto
  qed
qed

lemma reach_shape:
  assumes "shape h v = Some j" and "prefix h h'" and "a \<in> reach h' v"
  shows "a < length h"
proof -
  have "a < length h \<and> (\<exists>m j'. json_of m h (Ref a) = Some j')"
    using assms(3)
  proof (induction rule: reach.induct)
    case (root a)
    with assms(1) have "json_of (Suc (length h)) h (Ref a) = Some j" by (simp add: shape_def)
    moreover from this have "a < length h" unfolding json_of_Ref_iff by blast
    ultimately show ?case by blast
  next
    case (step a b)
    then obtain m j' where a: "a < length h" and j': "json_of m h (Ref a) = Some j'" by blast
    from a assms(2) have "h' ! a = h ! a" by (auto simp: prefix_def nth_append)
    with step.hyps(3) have "Ref b \<in> set (cell_values (h ! a))" by simp
    from json_of_child[OF j' this] obtain m' j'' where b: "json_of m' h (Ref b) = Some j''" by blast
    then obtain m0 where "m' = Suc m0" by (cases m') auto
    with b have "json_of (Suc m0) h (Ref b) = Some j''" by simp
    then have "b < length h" unfolding json_of_Ref_iff by blast
    with b show ?case by blast
  qed
  then show ?thesis by simp
qed

lemma prefix_nth:
  assumes "length xs \<le> length ys" and "\<forall>i<length xs. ys ! i = xs ! i"
  shows "prefix xs ys"
proof -
  have "take (length xs) ys = xs"
    using assms by (intro nth_equalityI) simp_all
  then show ?thesis by (metis take_is_prefix)
qed

lemma deepCopy_shape:
  assumes "shape h v = Some j"
  shows "\<exists>r h'. deepCopy h v = (Inr r, h') \<and> prefix h h' \<and> shape h' r = Some j
           \<and> (\<forall>a\<in>reach h' r. length h \<le> a \<and> a < length h')"
proof -
  from assms have j: "json_of (length h + 1) h v = Some j" by (simp add: shape_def)
  have s: "serialize (length h + 1) h v = Inr (Some j)" by (rule json_of_serialize[OF j])
  have nz: "normalized j" by (rule json_of_normalized[OF j])
  obtain r h' where al: "alloc j h = (r, h')" by (cases "alloc j h")
  from alloc_props(1)[OF al] nz have p: "prefix h h'"
    and c: "\<forall>n. length h' - length h \<le> n \<longrightarrow> json_of n h' r = Some j"
    by simp_all
  from alloc_fresh(1)[OF al] have f: "\<forall>b. r = Ref b \<longrightarrow> length h \<le> b \<and> b < length h'"
    and cl: "closed_from (length h) h'"
    by simp_all
  have fresh: "\<forall>a\<in>reach h' r. length h \<le> a \<and> a < length h'"
    using reach_closed[OF _ cl f] by blast
  from c have "json_of (length h' + 1) h' r = Some j" by simp
  moreover have "deepCopy h v = (Inr r, h')"
    using shape_not_special(1)[OF assms] s al by (simp add: deepCopy_def)
  ultimately show ?thesis using p fresh by (simp add: shape_def)
qed

lemma setState_literal:
  assumes "setState call render v a = (None, a1)" and "\<not> isFunction v"
  shows "state a1 = Some v" and "v \<noteq> Undefined"
  using assms
  by (auto simp: setState_def emit_state_def split: if_splits prod.splits option.splits)



lemma getState_shape:
  assumes "state a = Some v" and "shape (heap a) v = Some j"
  shows "\<exists>r a'. getState a = (Inr r, a') \<and> shape (heap a') r = Some j \<and> state a' = Some v
           \<and> prefix (heap a) (heap a')
           \<and> (\<forall>ad\<in>reach (heap a') r. length (heap a) \<le> ad \<and> ad < length (heap a'))"
proof -
  from deepCopy_shape[OF assms(2)] obtain r h' where
    "deepCopy (heap a) v = (Inr r, h')" "prefix (heap a) h'" "shape h' r = Some j"
    "\<forall>ad\<in>reach h' r. length (heap a) \<le> ad \<and> ad < length h'"
    by blast
  with assms(1) show ?thesis by (simp add: getState_def)
qed






text \<open>
  Claim C10, as the code has it. \<^verbatim>\<open>deepCopy\<close> goes through the text of JSON, so the state
  comes back equal only if JSON can write it and read it back: \<open>v\<close> is JSON-shaped, of
  shape \<open>j\<close> (\<^verbatim>\<open>null\<close>, booleans, numbers, strings, and arrays and objects of these, with
  no \<^verbatim>\<open>undefined\<close>, no function and no \<open>NaN\<close>). Let \<open>setState(v)\<close> return and \<open>v\<close> be so
  afterwards. Then \<^verbatim>\<open>getState()\<close> returns a value \<open>r\<close> of the same shape \<open>j\<close>, so one
  structurally equal to \<open>v\<close>. Every cell that \<open>r\<close> reaches, at any depth, was created by
  this call: \<open>r\<close> shares no object or array with the stored state, which is still \<open>v\<close>,
  and is not the stored reference. And whatever a program does afterwards to the cells
  that \<open>r\<close> reaches (and whatever cells it adds), as long as the other cells stay as they
  are, a later \<^verbatim>\<open>getState()\<close> again returns a value of shape \<open>j\<close>.
\<close>

theorem getState_returns_independent_copy:
  assumes set: "setState call render v a = (None, a1)"
    and shape: "shape (heap a1) v = Some j"
  shows "\<exists>r a2. getState a1 = (Inr r, a2)
           \<and> shape (heap a2) r = Some j
           \<and> (\<forall>ad\<in>reach (heap a2) r. length (heap a1) \<le> ad \<and> ad < length (heap a2))
           \<and> (\<forall>ad\<in>reach (heap a2) r. ad \<notin> reach (heap a2) v)
           \<and> (\<forall>ad. v = Ref ad \<longrightarrow> r \<noteq> v)
           \<and> state a2 = Some v
           \<and> (\<forall>h3. length (heap a2) \<le> length h3
                    \<and> (\<forall>ad<length (heap a2). ad \<notin> reach (heap a2) r \<longrightarrow> h3 ! ad = heap a2 ! ad)
                 \<longrightarrow> (\<exists>r' a4. getState (a2\<lparr>heap := h3\<rparr>) = (Inr r', a4) \<and> shape (heap a4) r' = Some j))"
proof -
  have st: "state a1 = Some v"
    by (rule setState_literal(1)[OF set shape_not_special(2)[OF shape]])
  from getState_shape[OF st shape] obtain r a2 where g: "getState a1 = (Inr r, a2)"
    and s2: "shape (heap a2) r = Some j" and st2: "state a2 = Some v"
    and p: "prefix (heap a1) (heap a2)"
    and fresh: "\<forall>ad\<in>reach (heap a2) r. length (heap a1) \<le> ad \<and> ad < length (heap a2)"
    by blast
  have old: "ad < length (heap a1)" if "ad \<in> reach (heap a2) v" for ad
    using reach_shape[OF shape p that] .
  have apart: "\<forall>ad\<in>reach (heap a2) r. ad \<notin> reach (heap a2) v"
    using fresh old by fastforce
  have ne: "r \<noteq> v" if "v = Ref ad" for ad
  proof
    assume "r = v"
    moreover from that have "ad \<in> reach (heap a2) v" by (simp add: reach.root)
    ultimately show False using apart that by blast
  qed
  have later: "\<exists>r' a4. getState (a2\<lparr>heap := h3\<rparr>) = (Inr r', a4) \<and> shape (heap a4) r' = Some j"
    if len: "length (heap a2) \<le> length h3"
      and same: "\<forall>ad<length (heap a2). ad \<notin> reach (heap a2) r \<longrightarrow> h3 ! ad = heap a2 ! ad"
    for h3
  proof -
    from p have l12: "length (heap a1) \<le> length (heap a2)" by (rule prefix_length_le)
    have "h3 ! ad = heap a1 ! ad" if ad: "ad < length (heap a1)" for ad
    proof -
      from fresh ad have "ad \<notin> reach (heap a2) r" by fastforce
      with same ad l12 have "h3 ! ad = heap a2 ! ad" by simp
      also from p ad have "\<dots> = heap a1 ! ad" by (auto simp: prefix_def nth_append)
      finally show ?thesis .
    qed
    with len l12 have p3: "prefix (heap a1) h3" by (intro prefix_nth) simp_all
    have "state (a2\<lparr>heap := h3\<rparr>) = Some v" using st2 by simp
    moreover have "shape (heap (a2\<lparr>heap := h3\<rparr>)) v = Some j"
      using shape_frame[OF shape p3] by simp
    ultimately show ?thesis using getState_shape by blast
  qed
  from g s2 st2 fresh apart ne later show ?thesis by blast
qed

theorem getState_returns_independent_copy_witness:
  "setState no_call headless (Ref 1)
       \<lparr>heap = [ObjectCell [(''b'', Num 1)], ObjectCell [(''a'', Ref 0)]], state = None\<rparr>
     = (None, \<lparr>heap = [ObjectCell [(''b'', Num 1)], ObjectCell [(''a'', Ref 0)]], state = Some (Ref 1)\<rparr>)
   \<and> shape [ObjectCell [(''b'', Num 1)], ObjectCell [(''a'', Ref 0)]] (Ref 1)
       = Some (JObj [(''a'', JObj [(''b'', JNum 1)])])
   \<and> getState \<lparr>heap = [ObjectCell [(''b'', Num 1)], ObjectCell [(''a'', Ref 0)]], state = Some (Ref 1)\<rparr>
       = (Inr (Ref 3),
          \<lparr>heap = [ObjectCell [(''b'', Num 1)], ObjectCell [(''a'', Ref 0)],
                   ObjectCell [(''b'', Num 1)], ObjectCell [(''a'', Ref 2)]],
           state = Some (Ref 1)\<rparr>)
   \<and> shape [ObjectCell [(''b'', Num 1)], ObjectCell [(''a'', Ref 0)],
             ObjectCell [(''b'', Num 1)], ObjectCell [(''a'', Ref 2)]] (Ref 3)
       = Some (JObj [(''a'', JObj [(''b'', JNum 1)])])
   \<and> 2 \<in> reach [ObjectCell [(''b'', Num 1)], ObjectCell [(''a'', Ref 0)],
                  ObjectCell [(''b'', Num 1)], ObjectCell [(''a'', Ref 2)]] (Ref 3)
   \<and> 2 \<notin> reach [ObjectCell [(''b'', Num 1)], ObjectCell [(''a'', Ref 0)],
                  ObjectCell [(''b'', Num 1)], ObjectCell [(''a'', Ref 2)]] (Ref 1)
   \<and> (\<exists>r' a4. getState \<lparr>heap = [ObjectCell [(''b'', Num 1)], ObjectCell [(''a'', Ref 0)],
                                 ObjectCell [(''b'', Num 2)], ObjectCell [(''a'', Ref 2), (''c'', Ref 0)]],
                         state = Some (Ref 1)\<rparr> = (Inr r', a4)
         \<and> shape (heap a4) r' = Some (JObj [(''a'', JObj [(''b'', JNum 1)])]))"
proof -
  let ?h1 = "[ObjectCell [(''b'', Num 1)], ObjectCell [(''a'', Ref 0)]]"
  let ?h2 = "[ObjectCell [(''b'', Num 1)], ObjectCell [(''a'', Ref 0)],
              ObjectCell [(''b'', Num 1)], ObjectCell [(''a'', Ref 2)]]"
  let ?h3 = "[ObjectCell [(''b'', Num 1)], ObjectCell [(''a'', Ref 0)],
              ObjectCell [(''b'', Num 2)], ObjectCell [(''a'', Ref 2), (''c'', Ref 0)]]"
  let ?j = "JObj [(''a'', JObj [(''b'', JNum 1)])]"
  have s: "setState no_call headless (Ref 1) \<lparr>heap = ?h1, state = None\<rparr>
             = (None, \<lparr>heap = ?h1, state = Some (Ref 1)\<rparr>)"
    by (simp add: setState_def emit_state_def headless_def)
  have j: "shape (heap \<lparr>heap = ?h1, state = Some (Ref 1)\<rparr>) (Ref 1) = Some ?j"
    by (simp add: shape_def eval_nat_numeral own_keys_def own_value_def is_array_index_def
        is_digit_def Let_def)
  have g: "getState \<lparr>heap = ?h1, state = Some (Ref 1)\<rparr>
             = (Inr (Ref 3), \<lparr>heap = ?h2, state = Some (Ref 1)\<rparr>)"
    by (simp add: getState_def deepCopy_def eval_nat_numeral own_keys_def own_value_def
        is_array_index_def is_digit_def Let_def)
  from getState_returns_independent_copy[OF s j] g
  have sh: "shape ?h2 (Ref 3) = Some ?j"
    and apart: "\<forall>ad\<in>reach ?h2 (Ref 3). ad \<notin> reach ?h2 (Ref 1)"
    and later: "\<forall>h3. length ?h2 \<le> length h3
                    \<and> (\<forall>ad<length ?h2. ad \<notin> reach ?h2 (Ref 3) \<longrightarrow> h3 ! ad = ?h2 ! ad)
                 \<longrightarrow> (\<exists>r' a4. getState (\<lparr>heap = ?h2, state = Some (Ref 1)\<rparr>\<lparr>heap := h3\<rparr>) = (Inr r', a4)
                        \<and> shape (heap a4) r' = Some ?j)"
    by auto
  have r3: "3 \<in> reach ?h2 (Ref 3)" by (rule reach.root) simp
  have r2: "2 \<in> reach ?h2 (Ref 3)" by (rule reach.step[OF r3]) simp_all
  from apart r2 have n2: "2 \<notin> reach ?h2 (Ref 1)" by blast
  have same: "\<forall>ad<length ?h2. ad \<notin> reach ?h2 (Ref 3) \<longrightarrow> ?h3 ! ad = ?h2 ! ad"
  proof (intro allI impI)
    fix ad :: nat
    assume "ad < length ?h2" and out: "ad \<notin> reach ?h2 (Ref 3)"
    then consider "ad = 0" | "ad = 1" | "ad = 2" | "ad = 3" by fastforce
    then show "?h3 ! ad = ?h2 ! ad"
    proof cases
      case 3
      with r2 out show ?thesis by simp
    next
      case 4
      with r3 out show ?thesis by simp
    qed simp_all
  qed
  have "length ?h2 \<le> length ?h3" by simp
  with later same
  have l: "\<exists>r' a4. getState \<lparr>heap = ?h3, state = Some (Ref 1)\<rparr> = (Inr r', a4)
             \<and> shape (heap a4) r' = Some ?j"
    by (metis (no_types, lifting) app.update_convs(1))
  from s j g sh r2 n2 l show ?thesis by simp
qed

text \<open>
  The claim as the specification words it (every value with no function and no
  \<^verbatim>\<open>undefined\<close>) fails for a number that JSON cannot write: \<^verbatim>\<open>JSON.stringify(NaN)\<close> is
  \<^verbatim>\<open>null\<close>, so after \<^verbatim>\<open>setState(NaN)\<close> the call \<^verbatim>\<open>getState()\<close> returns \<^verbatim>\<open>null\<close>.
\<close>

theorem getState_returns_null_for_NaN:
  "\<not> isFunction NaN \<and> NaN \<noteq> Undefined
   \<and> setState no_call headless NaN \<lparr>heap = [], state = None\<rparr>
       = (None, \<lparr>heap = [], state = Some NaN\<rparr>)
   \<and> getState \<lparr>heap = [], state = Some NaN\<rparr> = (Inr Null, \<lparr>heap = [], state = Some NaN\<rparr>)
   \<and> shape [] NaN = None"
  by (simp add: setState_def emit_state_def headless_def getState_def deepCopy_def shape_def)




subsection \<open>Undo and redo\<close>

text \<open>
  Claim C6, on the history layer as the specification describes it. With a capacity of at
  least one, whatever the history held before: after \<^verbatim>\<open>setState(t)\<close> followed by
  \<^verbatim>\<open>setState(d)\<close>, \<^verbatim>\<open>undo()\<close> makes the current state \<open>t\<close>, and a following \<^verbatim>\<open>redo()\<close>
  makes it \<open>d\<close>.
\<close>

theorem history_undo_redo:
  assumes "0 < capacity"
  shows "current_state (history_undo (history_commit capacity d (history_commit capacity t h))) = t
       \<and> current_state (history_redo (history_undo (history_commit capacity d (history_commit capacity t h)))) = d"
proof -
  define h1 where "h1 = history_commit capacity t h"
  define h2 where "h2 = history_commit capacity d h1"
  have c1: "current_state h1 = t" by (simp add: h1_def history_commit_def)
  have p2: "past h2 = evict capacity (past h1 @ [t])" and c2: "current_state h2 = d" and f2: "future h2 = []"
    by (simp_all add: h2_def history_commit_def c1)
  have ne: "past h2 \<noteq> []" and la: "last (past h2) = t"
  proof -
    show "past h2 \<noteq> []"
    proof (cases "past h1")
      case Nil
      with assms show ?thesis by (simp add: p2 evict_def)
    next
      case (Cons x xs)
      then show ?thesis by (simp add: p2 evict_def)
    qed
    show "last (past h2) = t"
    proof (cases "past h1")
      case Nil
      with assms show ?thesis by (simp add: p2 evict_def)
    next
      case (Cons x xs)
      then show ?thesis by (simp add: p2 evict_def)
    qed
  qed
  have u: "current_state (history_undo h2) = t" and fu: "future (history_undo h2) = [d]"
    using ne la c2 f2 by (simp_all add: history_undo_def)
  then have "current_state (history_redo (history_undo h2)) = d"
    by (simp add: history_redo_def)
  with u show ?thesis by (simp add: h2_def h1_def)
qed

theorem history_undo_redo_witness:
  "(0::nat) < 20
   \<and> current_state (history_undo (history_commit 20 (JStr ''different state'')
                 (history_commit 20 (JStr ''test'') \<lparr>past = [], current_state = JStr ''test'', future = []\<rparr>)))
       = JStr ''test''
   \<and> current_state (history_redo (history_undo (history_commit 20 (JStr ''different state'')
                 (history_commit 20 (JStr ''test'') \<lparr>past = [], current_state = JStr ''test'', future = []\<rparr>))))
       = JStr ''different state''"
proof -
  have c: "(0::nat) < 20" by simp
  from history_undo_redo[OF c, of "JStr ''different state''" "JStr ''test''" "\<lparr>past = [], current_state = JStr ''test'', future = []\<rparr>"] c
  show ?thesis by blast
qed


end
